theory Spec2Isabelle
  imports Complex_Main
begin

section \<open>Strings and the tokenizer\<close>

text \<open>
  A Python \<^verbatim>\<open>str\<close> is modelled as a \<^typ>\<open>string\<close> whose characters are the code
  points below 256. On that range \<^verbatim>\<open>str.lower\<close> moves the capital letters
  \<^verbatim>\<open>A-Z\<close>, \<^verbatim>\<open>U+00C0-U+00D6\<close> and \<^verbatim>\<open>U+00D8-U+00DE\<close> up by 32 and leaves every other
  character alone, and the white space that \<^verbatim>\<open>str.split()\<close> cuts at is
  \<^verbatim>\<open>U+0009-U+000D\<close>, \<^verbatim>\<open>U+001C-U+0020\<close>, \<^verbatim>\<open>U+0085\<close> and \<^verbatim>\<open>U+00A0\<close>.
\<close>

definition lower_char :: "char \<Rightarrow> char" where
  "lower_char c =
     (let n = (of_char c :: nat)
      in if (65 \<le> n \<and> n \<le> 90) \<or> (192 \<le> n \<and> n \<le> 214) \<or> (216 \<le> n \<and> n \<le> 222)
         then char_of (n + 32) else c)"

definition lower :: "string \<Rightarrow> string" where
  "lower text = map lower_char text"

definition is_space :: "char \<Rightarrow> bool" where
  "is_space c =
     (let n = (of_char c :: nat)
      in (9 \<le> n \<and> n \<le> 13) \<or> (28 \<le> n \<and> n \<le> 32) \<or> n = 133 \<or> n = 160)"

text \<open>\<^verbatim>\<open>text.replace(old, new)\<close> for one-character \<^verbatim>\<open>old\<close> and \<^verbatim>\<open>new\<close>.\<close>

definition replace :: "char \<Rightarrow> char \<Rightarrow> string \<Rightarrow> string" where
  "replace old new text = map (\<lambda>c. if c = old then new else c) text"

text \<open>
  \<^verbatim>\<open>text.split()\<close>: the maximal runs of characters that are not white space, in
  order. \<open>split_from cur text\<close> carries the word read so far.
\<close>

fun split_from :: "string \<Rightarrow> string \<Rightarrow> string list" where
  "split_from cur [] = (if cur = [] then [] else [cur])"
| "split_from cur (c # cs) =
     (if is_space c
      then (if cur = [] then split_from [] cs else cur # split_from [] cs)
      else split_from (cur @ [c]) cs)"

definition split :: "string \<Rightarrow> string list" where
  "split text = split_from [] text"

text \<open>
  \<^verbatim>\<open>tokenize(text)\<close>. The argument is \<open>None\<close> for Python's \<^verbatim>\<open>None\<close>; \<^verbatim>\<open>not text\<close>
  holds for \<^verbatim>\<open>None\<close> and for the empty string.
\<close>

definition tokenize :: "string option \<Rightarrow> string list" where
  "tokenize text =
     (case text of
        None \<Rightarrow> []
      | Some t \<Rightarrow>
          if t = [] then []
          else split (replace (CHR ''.'') (CHR '' '') (replace (CHR '','') (CHR '' '') (lower t))))"

section \<open>Dictionaries, counters and the vocabulary\<close>

text \<open>
  A Python \<^verbatim>\<open>dict\<close> keeps its keys in insertion order, each key once: it is an
  association list. \<open>dict_set d k v\<close> is \<^verbatim>\<open>d[k] = v\<close> (a key already present keeps
  its place), \<open>map_of d k\<close> is the lookup, \<open>dict_get d k dflt\<close> is \<^verbatim>\<open>d.get(k, dflt)\<close>
  and \<open>length d\<close> is \<^verbatim>\<open>len(d)\<close>.
\<close>

fun dict_set :: "('k \<times> 'v) list \<Rightarrow> 'k \<Rightarrow> 'v \<Rightarrow> ('k \<times> 'v) list" where
  "dict_set [] k v = [(k, v)]"
| "dict_set ((k', v') # d) k v =
     (if k' = k then (k', v) # d else (k', v') # dict_set d k v)"

definition dict_get :: "('k \<times> 'v) list \<Rightarrow> 'k \<Rightarrow> 'v \<Rightarrow> 'v" where
  "dict_get d k dflt = (case map_of d k of None \<Rightarrow> dflt | Some v \<Rightarrow> v)"

text \<open>\<^verbatim>\<open>Counter(tokens)\<close> counts each token, in the order of first occurrence.\<close>

definition Counter :: "'a list \<Rightarrow> ('a \<times> nat) list" where
  "Counter tokens = foldl (\<lambda>tf w. dict_set tf w (dict_get tf w 0 + 1)) [] tokens"

text \<open>
  Lines 23 to 26 of \<^verbatim>\<open>build_tfidf\<close> collect the tokens of all documents in a
  \<^verbatim>\<open>set\<close> and turn it into a list. Python leaves the order of that list open (it
  follows the hashes of the strings), so the list is an argument of the model:
  \<open>is_listing vocab S\<close> says that \<open>vocab\<close> is one of the lists that \<^verbatim>\<open>list(S)\<close> may
  return. \<open>first_occurrences\<close> is one such order, used to run the model.
\<close>

definition vocab_set :: "string list \<Rightarrow> string set" where
  "vocab_set documents = (\<Union>doc \<in> set documents. set (tokenize (Some doc)))"

definition is_listing :: "'a list \<Rightarrow> 'a set \<Rightarrow> bool" where
  "is_listing xs S \<longleftrightarrow> distinct xs \<and> set xs = S"

definition first_occurrences :: "string list \<Rightarrow> string list" where
  "first_occurrences documents =
     map fst (Counter (concat (map (\<lambda>doc. tokenize (Some doc)) documents)))"

section \<open>TF-IDF vectors\<close>

text \<open>
  Weights are Python floats; the model computes with real numbers, so the rounding of
  each floating-point operation is left out of the definitions of this section
  (the section on binary64 arithmetic below puts it back for \<open>cosine_similarity\<close>).
\<close>

datatype error = IndexError

text \<open>
  The loop of lines 40 to 43 of \<^verbatim>\<open>build_tfidf\<close>, which lines 63 to 66 of
  \<^verbatim>\<open>search_with_ir\<close> repeat: every counted word that has a slot stores
  \<^verbatim>\<open>count * idf.get(word, 0)\<close> there. A slot beyond the end of the vector raises
  \<^verbatim>\<open>IndexError\<close>.
\<close>

fun store_weights ::
  "(string \<times> nat) list \<Rightarrow> (string \<times> real) list \<Rightarrow> (string \<times> nat) list \<Rightarrow> real list
   \<Rightarrow> error + real list" where
  "store_weights vocab_index idf [] vector = Inr vector"
| "store_weights vocab_index idf ((word, count) # tf) vector =
     (case map_of vocab_index word of
        None \<Rightarrow> store_weights vocab_index idf tf vector
      | Some idx \<Rightarrow>
          if idx < length vector
          then store_weights vocab_index idf tf
                 (vector[idx := real count * dict_get idf word 0])
          else Inl IndexError)"

definition vectorize ::
  "(string \<times> nat) list \<Rightarrow> (string \<times> real) list \<Rightarrow> string list \<Rightarrow> nat \<Rightarrow> error + real list" where
  "vectorize vocab_index idf tokens n =
     store_weights vocab_index idf (Counter tokens) (replicate n 0)"

definition df :: "string list \<Rightarrow> string \<Rightarrow> nat" where
  "df documents word = length (filter (\<lambda>doc. word \<in> set (tokenize (Some doc))) documents)"

definition idf_weight :: "nat \<Rightarrow> nat \<Rightarrow> real" where
  "idf_weight N d = ln ((real N + 1) / (real d + 1)) + 1"

fun vectorize_all ::
  "(string \<times> nat) list \<Rightarrow> (string \<times> real) list \<Rightarrow> nat \<Rightarrow> string list
   \<Rightarrow> error + real list list" where
  "vectorize_all vocab_index idf n [] = Inr []"
| "vectorize_all vocab_index idf n (doc # documents) =
     (case vectorize vocab_index idf (tokenize (Some doc)) n of
        Inl e \<Rightarrow> Inl e
      | Inr vector \<Rightarrow>
          (case vectorize_all vocab_index idf n documents of
             Inl e \<Rightarrow> Inl e
           | Inr vectors \<Rightarrow> Inr (vector # vectors)))"

text \<open>
  \<^verbatim>\<open>build_tfidf(documents)\<close>, with the list \<open>vocab\<close> that line 26 produced.
\<close>

definition build_tfidf ::
  "string list \<Rightarrow> string list
   \<Rightarrow> error + (real list list \<times> (string \<times> nat) list \<times> (string \<times> real) list)" where
  "build_tfidf vocab documents =
     (let vocab_index = foldl (\<lambda>d (i, word). dict_set d word i) [] (enumerate 0 vocab);
          N = length documents;
          idf = foldl (\<lambda>d word. dict_set d word (idf_weight N (df documents word))) [] vocab
      in case vectorize_all vocab_index idf (length vocab) documents of
           Inl e \<Rightarrow> Inl e
         | Inr vectors \<Rightarrow> Inr (vectors, vocab_index, idf))"

section \<open>Cosine similarity\<close>

definition cosine_similarity :: "real list \<Rightarrow> real list \<Rightarrow> real" where
  "cosine_similarity vec1 vec2 =
     (if vec1 = [] \<or> vec2 = [] then 0
      else
        let dot = sum_list (map (\<lambda>(a, b). a * b) (zip vec1 vec2));
            norm1 = sqrt (sum_list (map (\<lambda>a. a * a) vec1));
            norm2 = sqrt (sum_list (map (\<lambda>b. b * b) vec2))
        in if norm1 = 0 \<or> norm2 = 0 then 0 else dot / (norm1 * norm2))"

section \<open>Search and recommendation\<close>

text \<open>
  A book is a \<^verbatim>\<open>dict\<close> in the program; the record has the fields that are indexed
  or read by the functions below.
\<close>

record book =
  book_id :: string
  title :: string
  author :: string
  category :: string
  description :: string

text \<open>
  \<^verbatim>\<open>xs.sort(key=key, reverse=True)\<close>: CPython reverses the list, sorts it stably by
  ascending key and reverses the result, which keeps elements of equal key in their
  original order.
\<close>

definition sort_reverse :: "('a \<Rightarrow> real) \<Rightarrow> 'a list \<Rightarrow> 'a list" where
  "sort_reverse key xs = rev (sort_key key (rev xs))"

definition final_score :: "string list \<Rightarrow> real list \<Rightarrow> book \<Rightarrow> real list \<Rightarrow> real" where
  "final_score query_tokens query_vector b doc_vec =
     (let cos_score = cosine_similarity query_vector doc_vec;
          title_tokens = tokenize (Some (title b));
          author_tokens = tokenize (Some (author b));
          title_match = sum_list (map (\<lambda>token. 3::nat)
                          (filter (\<lambda>token. token \<in> set title_tokens) query_tokens));
          author_match = sum_list (map (\<lambda>token. 2::nat)
                           (filter (\<lambda>token. token \<in> set author_tokens) query_tokens))
      in cos_score * 4 + real title_match + real author_match)"

text \<open>
  The loop of lines 69 to 80 over \<^verbatim>\<open>enumerate(doc_vectors)\<close>; \<^verbatim>\<open>books[i]\<close> raises
  \<^verbatim>\<open>IndexError\<close> when there are fewer books than vectors.
\<close>

fun score_all ::
  "string list \<Rightarrow> real list \<Rightarrow> book list \<Rightarrow> (nat \<times> real list) list
   \<Rightarrow> error + (book \<times> real) list" where
  "score_all query_tokens query_vector books [] = Inr []"
| "score_all query_tokens query_vector books ((i, doc_vec) # rest) =
     (if i < length books
      then (case score_all query_tokens query_vector books rest of
              Inl e \<Rightarrow> Inl e
            | Inr scores \<Rightarrow>
                Inr ((books ! i, final_score query_tokens query_vector (books ! i) doc_vec)
                     # scores))
      else Inl IndexError)"

definition search_with_ir ::
  "string \<Rightarrow> book list \<Rightarrow> real list list \<Rightarrow> (string \<times> nat) list \<Rightarrow> (string \<times> real) list
   \<Rightarrow> error + book list" where
  "search_with_ir query books doc_vectors vocab_index idf =
     (let query_tokens = tokenize (Some query)
      in case vectorize vocab_index idf query_tokens (length vocab_index) of
           Inl e \<Rightarrow> Inl e
         | Inr query_vector \<Rightarrow>
             (case score_all query_tokens query_vector books (enumerate 0 doc_vectors) of
                Inl e \<Rightarrow> Inl e
              | Inr scores \<Rightarrow>
                  Inr (map fst (filter (\<lambda>(book, score). score > 0)
                                  (sort_reverse snd scores)))))"

text \<open>The loop of lines 92 to 95.\<close>

fun similar_all ::
  "nat \<Rightarrow> real list \<Rightarrow> book list \<Rightarrow> (nat \<times> real list) list \<Rightarrow> error + (book \<times> real) list" where
  "similar_all book_idx base_vec books [] = Inr []"
| "similar_all book_idx base_vec books ((i, doc_vec) # rest) =
     (if i \<noteq> book_idx
      then (if i < length books
            then (case similar_all book_idx base_vec books rest of
                    Inl e \<Rightarrow> Inl e
                  | Inr scores \<Rightarrow>
                      Inr ((books ! i, cosine_similarity base_vec doc_vec) # scores))
            else Inl IndexError)
      else similar_all book_idx base_vec books rest)"

text \<open>\<^verbatim>\<open>xs[:n]\<close> for a Python integer \<open>n\<close>: a negative \<open>n\<close> counts from the end.\<close>

definition slice_to :: "'a list \<Rightarrow> int \<Rightarrow> 'a list" where
  "slice_to xs n = (if 0 \<le> n then take (nat n) xs else take (nat (int (length xs) + n)) xs)"

definition recommend_similar ::
  "int \<Rightarrow> book list \<Rightarrow> real list list \<Rightarrow> int \<Rightarrow> error + book list" where
  "recommend_similar book_idx books doc_vectors top_n =
     (if book_idx < 0 \<or> int (length doc_vectors) \<le> book_idx then Inr []
      else
        let base_vec = doc_vectors ! nat book_idx
        in case similar_all (nat book_idx) base_vec books (enumerate 0 doc_vectors) of
             Inl e \<Rightarrow> Inl e
           | Inr scores \<Rightarrow> Inr (map fst (slice_to (sort_reverse snd scores) top_n)))"

text \<open>
  Lines 158 to 163 of the script: the text of a book that is indexed, and the index of
  a list of books.
\<close>

definition document_text :: "book \<Rightarrow> string" where
  "document_text b = title b @ '' '' @ author b @ '' '' @ category b @ '' '' @ description b"

definition build_index ::
  "string list \<Rightarrow> book list
   \<Rightarrow> error + (real list list \<times> (string \<times> nat) list \<times> (string \<times> real) list)" where
  "build_index vocab books = build_tfidf vocab (map document_text books)"

text \<open>A book with a given title and author, for the concrete instances below.\<close>

definition mk_book :: "string \<Rightarrow> string \<Rightarrow> book" where
  "mk_book t a =
     \<lparr>book_id = ''b'', title = t, author = a, category = ''Tech'', description = ''''\<rparr>"

text \<open>
  The positions \<open>js\<close> of a list, each paired with its score \<open>f\<close>, in the order in
  which \<open>sort_reverse\<close> leaves them; the proofs below follow positions through the
  loops of \<open>search_with_ir\<close> and \<open>recommend_similar\<close> with it.
\<close>

definition rank :: "(nat \<Rightarrow> real) \<Rightarrow> nat list \<Rightarrow> (nat \<times> real) list" where
  "rank f js = sort_reverse snd (map (\<lambda>i. (i, f i)) js)"

text \<open>Two books that share their author, and the list of their tokens.\<close>

definition two_books :: "book list" where
  "two_books = [mk_book ''a'' ''x'', mk_book ''b'' ''x'']"

definition two_books_vocab :: "string list" where
  "two_books_vocab = [''a'', ''x'', ''tech'', ''b'']"

text \<open>The index of the two books for that order of the vocabulary.\<close>

definition two_books_vectors :: "real list list" where
  "two_books_vectors = [[ln (3 / 2) + 1, 1, 1, 0], [0, 1, 1, ln (3 / 2) + 1]]"

definition two_books_vocab_index :: "(string \<times> nat) list" where
  "two_books_vocab_index = [(''a'', 0), (''x'', 1), (''tech'', 2), (''b'', 3)]"

definition two_books_idf :: "(string \<times> real) list" where
  "two_books_idf = [(''a'', ln (3 / 2) + 1), (''x'', 1), (''tech'', 1), (''b'', ln (3 / 2) + 1)]"

text \<open>
  The dot product over the common prefix of two vectors and the sum of the squares of
  one vector, as \<open>cosine_similarity\<close> forms them.
\<close>

definition dot :: "real list \<Rightarrow> real list \<Rightarrow> real" where
  "dot a b = sum_list (map (\<lambda>(x, y). x * y) (zip a b))"

definition sumsq :: "real list \<Rightarrow> real" where
  "sumsq a = sum_list (map (\<lambda>x. x * x) a)"

text \<open>
  The weight of a word in a list of tokens, for an index over \<open>documents\<close>: its
  count times its inverse document frequency.
\<close>

definition weight :: "string list \<Rightarrow> string list \<Rightarrow> string \<Rightarrow> real" where
  "weight documents tokens w =
     real (count_list tokens w) * idf_weight (length documents) (df documents w)"

section \<open>Binary64 arithmetic\<close>

text \<open>
  A Python float is an IEEE 754 binary64 number, and \<^verbatim>\<open>+\<close>, \<^verbatim>\<open>*\<close>, \<^verbatim>\<open>/\<close> and
  \<^verbatim>\<open>math.sqrt\<close> return the exact result rounded to the nearest binary64 number, a
  tie going to the even significand. \<open>binary64 x\<close> is that rounding of a real \<open>x\<close> to 53
  significant bits. The exponent is not bounded here: the model is CPython's for
  results whose magnitude lies between \<^verbatim>\<open>2 ** -1022\<close> and \<^verbatim>\<open>2 ** 1024\<close>, and
  leaves overflow and subnormal numbers out.
\<close>

definition round_to_even :: "real \<Rightarrow> int" where
  "round_to_even x =
     (let f = \<lfloor>x\<rfloor>; r = x - of_int f
      in if r < 1 / 2 then f else if 1 / 2 < r then f + 1 else if even f then f else f + 1)"

definition binary64 :: "real \<Rightarrow> real" where
  "binary64 x =
     (if x = 0 then 0
      else let e = \<lfloor>log 2 \<bar>x\<bar>\<rfloor> - 52
           in of_int (round_to_even (x / 2 powr of_int e)) * 2 powr of_int e)"

text \<open>
  \<open>cosine_similarity_rounded rnd\<close> is \<^verbatim>\<open>cosine_similarity\<close> with the rounding \<open>rnd\<close>
  after every operation; \<^verbatim>\<open>sum\<close> adds from the left, starting at 0, as CPython
  does before version 3.12 (later versions carry a correction term along, which
  changes nothing where the additions are exact, as they are in the instances
  evaluated below). With the identity for \<open>rnd\<close> it is \<open>cosine_similarity\<close> above,
  with \<open>binary64\<close> it is the value that CPython computes.
\<close>

definition sum_rounded :: "(real \<Rightarrow> real) \<Rightarrow> real list \<Rightarrow> real" where
  "sum_rounded rnd xs = foldl (\<lambda>acc x. rnd (acc + x)) 0 xs"

definition cosine_similarity_rounded :: "(real \<Rightarrow> real) \<Rightarrow> real list \<Rightarrow> real list \<Rightarrow> real" where
  "cosine_similarity_rounded rnd vec1 vec2 =
     (if vec1 = [] \<or> vec2 = [] then 0
      else
        let dot = sum_rounded rnd (map (\<lambda>(a, b). rnd (a * b)) (zip vec1 vec2));
            norm1 = rnd (sqrt (sum_rounded rnd (map (\<lambda>a. rnd (a * a)) vec1)));
            norm2 = rnd (sqrt (sum_rounded rnd (map (\<lambda>b. rnd (b * b)) vec2)))
        in if norm1 = 0 \<or> norm2 = 0 then 0 else rnd (dot / rnd (norm1 * norm2)))"

section \<open>The program in rounded arithmetic\<close>

text \<open>
  The functions above once more, with the rounding \<open>rnd\<close> after every floating-point
  operation, as \<open>cosine_similarity_rounded\<close> has it. \<open>lg\<close> stands for \<^verbatim>\<open>math.log\<close>,
  which takes a float and returns one. With the identity for \<open>rnd\<close> and \<open>ln\<close> for \<open>lg\<close>
  these are the functions of the sections above; with \<open>binary64\<close> and \<open>math_log\<close>
  they compute the floats of the program, as long as no operation overflows (a
  vector of an index never has an entry large or small enough for that).
\<close>

fun store_weights_rounded ::
  "(real \<Rightarrow> real) \<Rightarrow> (string \<times> nat) list \<Rightarrow> (string \<times> real) list
   \<Rightarrow> (string \<times> nat) list \<Rightarrow> real list \<Rightarrow> error + real list" where
  "store_weights_rounded rnd vocab_index idf [] vector = Inr vector"
| "store_weights_rounded rnd vocab_index idf ((word, count) # tf) vector =
     (case map_of vocab_index word of
        None \<Rightarrow> store_weights_rounded rnd vocab_index idf tf vector
      | Some idx \<Rightarrow>
          if idx < length vector
          then store_weights_rounded rnd vocab_index idf tf
                 (vector[idx := rnd (real count * dict_get idf word 0)])
          else Inl IndexError)"

definition vectorize_rounded ::
  "(real \<Rightarrow> real) \<Rightarrow> (string \<times> nat) list \<Rightarrow> (string \<times> real) list \<Rightarrow> string list \<Rightarrow> nat
   \<Rightarrow> error + real list" where
  "vectorize_rounded rnd vocab_index idf tokens n =
     store_weights_rounded rnd vocab_index idf (Counter tokens) (replicate n 0)"

definition idf_weight_rounded :: "(real \<Rightarrow> real) \<Rightarrow> (real \<Rightarrow> real) \<Rightarrow> nat \<Rightarrow> nat \<Rightarrow> real" where
  "idf_weight_rounded rnd lg N d = rnd (lg (rnd ((real N + 1) / (real d + 1))) + 1)"

fun vectorize_all_rounded ::
  "(real \<Rightarrow> real) \<Rightarrow> (string \<times> nat) list \<Rightarrow> (string \<times> real) list \<Rightarrow> nat \<Rightarrow> string list
   \<Rightarrow> error + real list list" where
  "vectorize_all_rounded rnd vocab_index idf n [] = Inr []"
| "vectorize_all_rounded rnd vocab_index idf n (doc # documents) =
     (case vectorize_rounded rnd vocab_index idf (tokenize (Some doc)) n of
        Inl e \<Rightarrow> Inl e
      | Inr vector \<Rightarrow>
          (case vectorize_all_rounded rnd vocab_index idf n documents of
             Inl e \<Rightarrow> Inl e
           | Inr vectors \<Rightarrow> Inr (vector # vectors)))"

definition build_tfidf_rounded ::
  "(real \<Rightarrow> real) \<Rightarrow> (real \<Rightarrow> real) \<Rightarrow> string list \<Rightarrow> string list
   \<Rightarrow> error + (real list list \<times> (string \<times> nat) list \<times> (string \<times> real) list)" where
  "build_tfidf_rounded rnd lg vocab documents =
     (let vocab_index = foldl (\<lambda>d (i, word). dict_set d word i) [] (enumerate 0 vocab);
          N = length documents;
          idf = foldl (\<lambda>d word. dict_set d word
                        (idf_weight_rounded rnd lg N (df documents word))) [] vocab
      in case vectorize_all_rounded rnd vocab_index idf (length vocab) documents of
           Inl e \<Rightarrow> Inl e
         | Inr vectors \<Rightarrow> Inr (vectors, vocab_index, idf))"

definition build_index_rounded ::
  "(real \<Rightarrow> real) \<Rightarrow> (real \<Rightarrow> real) \<Rightarrow> string list \<Rightarrow> book list
   \<Rightarrow> error + (real list list \<times> (string \<times> nat) list \<times> (string \<times> real) list)" where
  "build_index_rounded rnd lg vocab books =
     build_tfidf_rounded rnd lg vocab (map document_text books)"

definition final_score_rounded ::
  "(real \<Rightarrow> real) \<Rightarrow> string list \<Rightarrow> real list \<Rightarrow> book \<Rightarrow> real list \<Rightarrow> real" where
  "final_score_rounded rnd query_tokens query_vector b doc_vec =
     (let cos_score = cosine_similarity_rounded rnd query_vector doc_vec;
          title_tokens = tokenize (Some (title b));
          author_tokens = tokenize (Some (author b));
          title_match = sum_list (map (\<lambda>token. 3::nat)
                          (filter (\<lambda>token. token \<in> set title_tokens) query_tokens));
          author_match = sum_list (map (\<lambda>token. 2::nat)
                           (filter (\<lambda>token. token \<in> set author_tokens) query_tokens))
      in rnd (rnd (rnd (cos_score * 4) + real title_match) + real author_match))"

fun score_all_rounded ::
  "(real \<Rightarrow> real) \<Rightarrow> string list \<Rightarrow> real list \<Rightarrow> book list \<Rightarrow> (nat \<times> real list) list
   \<Rightarrow> error + (book \<times> real) list" where
  "score_all_rounded rnd query_tokens query_vector books [] = Inr []"
| "score_all_rounded rnd query_tokens query_vector books ((i, doc_vec) # rest) =
     (if i < length books
      then (case score_all_rounded rnd query_tokens query_vector books rest of
              Inl e \<Rightarrow> Inl e
            | Inr scores \<Rightarrow>
                Inr ((books ! i,
                      final_score_rounded rnd query_tokens query_vector (books ! i) doc_vec)
                     # scores))
      else Inl IndexError)"

definition search_with_ir_rounded ::
  "(real \<Rightarrow> real) \<Rightarrow> string \<Rightarrow> book list \<Rightarrow> real list list \<Rightarrow> (string \<times> nat) list
   \<Rightarrow> (string \<times> real) list \<Rightarrow> error + book list" where
  "search_with_ir_rounded rnd query books doc_vectors vocab_index idf =
     (let query_tokens = tokenize (Some query)
      in case vectorize_rounded rnd vocab_index idf query_tokens (length vocab_index) of
           Inl e \<Rightarrow> Inl e
         | Inr query_vector \<Rightarrow>
             (case score_all_rounded rnd query_tokens query_vector books
                     (enumerate 0 doc_vectors) of
                Inl e \<Rightarrow> Inl e
              | Inr scores \<Rightarrow>
                  Inr (map fst (filter (\<lambda>(book, score). score > 0)
                                  (sort_reverse snd scores)))))"

fun similar_all_rounded ::
  "(real \<Rightarrow> real) \<Rightarrow> nat \<Rightarrow> real list \<Rightarrow> book list \<Rightarrow> (nat \<times> real list) list
   \<Rightarrow> error + (book \<times> real) list" where
  "similar_all_rounded rnd book_idx base_vec books [] = Inr []"
| "similar_all_rounded rnd book_idx base_vec books ((i, doc_vec) # rest) =
     (if i \<noteq> book_idx
      then (if i < length books
            then (case similar_all_rounded rnd book_idx base_vec books rest of
                    Inl e \<Rightarrow> Inl e
                  | Inr scores \<Rightarrow>
                      Inr ((books ! i, cosine_similarity_rounded rnd base_vec doc_vec)
                           # scores))
            else Inl IndexError)
      else similar_all_rounded rnd book_idx base_vec books rest)"

definition recommend_similar_rounded ::
  "(real \<Rightarrow> real) \<Rightarrow> int \<Rightarrow> book list \<Rightarrow> real list list \<Rightarrow> int \<Rightarrow> error + book list" where
  "recommend_similar_rounded rnd book_idx books doc_vectors top_n =
     (if book_idx < 0 \<or> int (length doc_vectors) \<le> book_idx then Inr []
      else
        let base_vec = doc_vectors ! nat book_idx
        in case similar_all_rounded rnd (nat book_idx) base_vec books
                  (enumerate 0 doc_vectors) of
             Inl e \<Rightarrow> Inl e
           | Inr scores \<Rightarrow> Inr (map fst (slice_to (sort_reverse snd scores) top_n)))"

text \<open>
  \<^verbatim>\<open>math.log\<close> on a float, as the correctly rounded logarithm (which the C library
  returns at the arguments evaluated below).
\<close>

definition math_log :: "real \<Rightarrow> real" where
  "math_log x = binary64 (ln x)"

text \<open>A vector padded with zeros at its end, to the length \<open>n\<close>.\<close>

definition pad_zeros :: "nat \<Rightarrow> real list \<Rightarrow> real list" where
  "pad_zeros n v = v @ replicate (n - length v) 0"

subsection \<open>Two books whose scores tie\<close>

text \<open>
  Two books whose indexed texts are \<^verbatim>\<open>a b c d x\<close> and \<^verbatim>\<open>e f g h x\<close>, two orders of
  their vocabulary, and the two indexes that \<^verbatim>\<open>build_tfidf\<close> computes for these
  orders with binary64 floats: the weight of a word of one document is the float
  \<^verbatim>\<open>math.log(1.5) + 1 = 1.4054651081081644\<close>, the weight of \<^verbatim>\<open>x\<close> is \<^verbatim>\<open>1.0\<close>.
\<close>

definition tie_books :: "book list" where
  "tie_books =
     [\<lparr>book_id = ''b0'', title = ''a'', author = ''b'', category = ''c'', description = ''d x''\<rparr>,
      \<lparr>book_id = ''b1'', title = ''e'', author = ''f'', category = ''g'', description = ''h x''\<rparr>]"

definition tie_vocab1 :: "string list" where
  "tie_vocab1 = [''a'', ''b'', ''c'', ''d'', ''e'', ''f'', ''g'', ''h'', ''x'']"

definition tie_vocab2 :: "string list" where
  "tie_vocab2 = [''a'', ''b'', ''c'', ''d'', ''e'', ''f'', ''g'', ''x'', ''h'']"

definition tie_weight :: real where
  "tie_weight = 6329652137158163 / 2 ^ 52"

definition tie_vectors1 :: "real list list" where
  "tie_vectors1 =
     [[tie_weight, tie_weight, tie_weight, tie_weight, 0, 0, 0, 0, 1],
      [0, 0, 0, 0, tie_weight, tie_weight, tie_weight, tie_weight, 1]]"

definition tie_vectors2 :: "real list list" where
  "tie_vectors2 =
     [[tie_weight, tie_weight, tie_weight, tie_weight, 0, 0, 0, 1, 0],
      [0, 0, 0, 0, tie_weight, tie_weight, tie_weight, 1, tie_weight]]"

definition tie_vocab_index1 :: "(string \<times> nat) list" where
  "tie_vocab_index1 =
     [(''a'', 0), (''b'', 1), (''c'', 2), (''d'', 3), (''e'', 4), (''f'', 5), (''g'', 6),
      (''h'', 7), (''x'', 8)]"

definition tie_vocab_index2 :: "(string \<times> nat) list" where
  "tie_vocab_index2 =
     [(''a'', 0), (''b'', 1), (''c'', 2), (''d'', 3), (''e'', 4), (''f'', 5), (''g'', 6),
      (''x'', 7), (''h'', 8)]"

definition tie_idf1 :: "(string \<times> real) list" where
  "tie_idf1 =
     [(''a'', tie_weight), (''b'', tie_weight), (''c'', tie_weight), (''d'', tie_weight),
      (''e'', tie_weight), (''f'', tie_weight), (''g'', tie_weight), (''h'', tie_weight),
      (''x'', 1)]"

definition tie_idf2 :: "(string \<times> real) list" where
  "tie_idf2 =
     [(''a'', tie_weight), (''b'', tie_weight), (''c'', tie_weight), (''d'', tie_weight),
      (''e'', tie_weight), (''f'', tie_weight), (''g'', tie_weight), (''x'', 1),
      (''h'', tie_weight)]"

subsection \<open>Four books with nearly parallel vectors\<close>

text \<open>
  Four books and a vector for each. The third vector is \<^verbatim>\<open>[1.0, 1.0 + 2 ** -30]\<close>: its
  angle to the first one is so small that the float which \<^verbatim>\<open>cosine_similarity\<close>
  returns for the two is \<^verbatim>\<open>1.0\<close>, while the float returned for the first vector and its
  copy, the second one, is \<^verbatim>\<open>0.9999999999999998\<close>.
\<close>

definition near_books :: "book list" where
  "near_books = [mk_book ''p'' ''x'', mk_book ''q'' ''x'', mk_book ''r'' ''y'', mk_book ''s'' ''y'']"

definition near_vectors :: "real list list" where
  "near_vectors = [[1, 1], [1, 1], [1, 1073741825 / 2 ^ 30], [0, 1]]"

section \<open>Sorting, dictionaries and the loops\<close>

subsection \<open>Sorting in reverse\<close>

lemma set_sort_reverse [simp]: "set (sort_reverse key xs) = set xs"
  by (simp add: sort_reverse_def)

lemma length_sort_reverse [simp]: "length (sort_reverse key xs) = length xs"
  by (simp add: sort_reverse_def)

lemma distinct_sort_reverse [simp]: "distinct (sort_reverse key xs) = distinct xs"
  by (simp add: sort_reverse_def)



lemma insort_key_map:
  "insort_key key (g x) (map g xs) = map g (insort_key (\<lambda>y. key (g y)) x xs)"
  by (induction xs) simp_all

lemma sort_key_map:
  "sort_key key (map g xs) = map g (sort_key (\<lambda>y. key (g y)) xs)"
  by (induction xs) (simp_all add: insort_key_map)

lemma sort_reverse_map:
  "sort_reverse key (map g xs) = map g (sort_reverse (\<lambda>y. key (g y)) xs)"
  by (simp add: sort_reverse_def rev_map sort_key_map)



lemma set_rank: "fst ` set (rank f js) = set js"
  by (force simp: rank_def)

lemma length_rank [simp]: "length (rank f js) = length js"
  by (simp add: rank_def)

lemma distinct_rank: "distinct js \<Longrightarrow> distinct (map fst (rank f js))"
proof -
  assume d: "distinct js"
  have "card (fst ` set (rank f js)) = length (map fst (rank f js))"
    using d by (simp add: set_rank distinct_card)
  then have "card (set (map fst (rank f js))) = length (map fst (rank f js))"
    by simp
  then show ?thesis
    by (rule card_distinct)
qed

lemma score_all_enumerate:
  assumes "n + length vs \<le> length books"
  shows "score_all qt qv books (enumerate n vs)
         = Inr (map (\<lambda>(i, v). (books ! i, final_score qt qv (books ! i) v)) (enumerate n vs))"
  using assms by (induction vs arbitrary: n) simp_all

lemma similar_all_enumerate:
  assumes "n + length vs \<le> length books"
  shows "similar_all bi base books (enumerate n vs)
         = Inr (map (\<lambda>(i, v). (books ! i, cosine_similarity base v))
                  (filter (\<lambda>(i, v). i \<noteq> bi) (enumerate n vs)))"
  using assms by (induction vs arbitrary: n) simp_all

lemma enumerate_as_map: "enumerate 0 vs = map (\<lambda>i. (i, vs ! i)) [0..<length vs]"
  by (rule nth_equalityI) (simp_all add: nth_enumerate_eq)

subsection \<open>Dictionaries\<close>

lemma map_of_dict_set: "map_of (dict_set d k v) = (map_of d)(k \<mapsto> v)"
  by (induction d k v rule: dict_set.induct) auto

lemma dict_set_fresh: "k \<notin> fst ` set d \<Longrightarrow> dict_set d k v = d @ [(k, v)]"
  by (induction d k v rule: dict_set.induct) auto

lemma snd_set_dict_set: "snd ` set (dict_set d k v) \<subseteq> insert v (snd ` set d)"
  by (induction d k v rule: dict_set.induct) auto

lemma foldl_index_fresh:
  assumes "distinct ws" and "set ws \<inter> fst ` set d = {}"
  shows "foldl (\<lambda>d (i, word). dict_set d word i) d (enumerate n ws)
         = d @ map (\<lambda>(i, word). (word, i)) (enumerate n ws)"
  using assms
proof (induction ws arbitrary: d n)
  case Nil
  then show ?case by simp
next
  case (Cons w ws)
  have fresh: "w \<notin> fst ` set d"
    using Cons.prems(2) by auto
  have "set ws \<inter> fst ` set (d @ [(w, n)]) = {}"
    using Cons.prems by auto
  with Cons.IH [of "d @ [(w, n)]" "Suc n"] Cons.prems(1) fresh show ?case
    by (simp add: dict_set_fresh)
qed

lemma foldl_index_slots:
  "snd ` set (foldl (\<lambda>d (i, word). dict_set d word i) d (enumerate n ws))
   \<subseteq> snd ` set d \<union> {n..<n + length ws}"
proof (induction ws arbitrary: d n)
  case Nil
  then show ?case by simp
next
  case (Cons w ws)
  have "snd ` set (foldl (\<lambda>d (i, word). dict_set d word i) (dict_set d w n) (enumerate (Suc n) ws))
        \<subseteq> snd ` set (dict_set d w n) \<union> {Suc n..<Suc n + length ws}"
    by (rule Cons.IH)
  also have "\<dots> \<subseteq> insert n (snd ` set d) \<union> {Suc n..<Suc n + length ws}"
    using snd_set_dict_set [of d w n] by blast
  also have "\<dots> \<subseteq> snd ` set d \<union> {n..<n + length (w # ws)}"
    by auto
  finally show ?case by simp
qed

lemma map_of_foldl_idf:
  "map_of (foldl (\<lambda>d word. dict_set d word (g word)) d ws) t
   = (if t \<in> set ws then Some (g t) else map_of d t)"
  by (induction ws arbitrary: d) (auto simp: map_of_dict_set)

subsection \<open>Vectors\<close>

lemma store_weights_total:
  assumes "\<And>w i. map_of vocab_index w = Some i \<Longrightarrow> i < length vector"
  shows "\<exists>v. store_weights vocab_index idf tf vector = Inr v \<and> length v = length vector"
  using assms
proof (induction tf arbitrary: vector)
  case Nil
  then show ?case by simp
next
  case (Cons p tf)
  obtain word count where p: "p = (word, count)"
    by (cases p)
  show ?case
  proof (cases "map_of vocab_index word")
    case None
    with Cons p show ?thesis by simp
  next
    case (Some idx)
    then have idx: "idx < length vector"
      by (rule Cons.prems)
    let ?v = "vector[idx := real count * dict_get idf word 0]"
    have "\<exists>v. store_weights vocab_index idf tf ?v = Inr v \<and> length v = length ?v"
      by (rule Cons.IH) (simp add: Cons.prems)
    with Some idx p show ?thesis by simp
  qed
qed

lemma vectorize_total:
  assumes "\<And>w i. map_of vocab_index w = Some i \<Longrightarrow> i < n"
  shows "\<exists>v. vectorize vocab_index idf tokens n = Inr v \<and> length v = n"
  using store_weights_total [of vocab_index "replicate n 0" idf "Counter tokens"] assms
  by (simp add: vectorize_def)

lemma vectorize_all_total:
  assumes "\<And>w i. map_of vocab_index w = Some i \<Longrightarrow> i < n"
  shows "\<exists>vs. vectorize_all vocab_index idf n documents = Inr vs
           \<and> length vs = length documents \<and> (\<forall>v \<in> set vs. length v = n)"
proof (induction documents)
  case Nil
  then show ?case by simp
next
  case (Cons doc documents)
  from vectorize_total [of vocab_index n idf "tokenize (Some doc)"] assms
  obtain v where "vectorize vocab_index idf (tokenize (Some doc)) n = Inr v" "length v = n"
    by blast
  with Cons.IH show ?case by auto
qed

lemma built_slots_in_range:
  assumes "map_of (foldl (\<lambda>d (i, word). dict_set d word i) [] (enumerate 0 vocab)) w = Some i"
  shows "i < length vocab"
proof -
  from assms have "i \<in> snd ` set (foldl (\<lambda>d (i, word). dict_set d word i) [] (enumerate 0 vocab))"
    by (force dest: map_of_SomeD)
  with foldl_index_slots [of "[]" 0 vocab] show ?thesis
    by auto
qed

lemma build_tfidf_total:
  "\<exists>vectors vocab_index idf.
     build_tfidf vocab documents = Inr (vectors, vocab_index, idf)
     \<and> length vectors = length documents"
proof -
  define vi where "vi = foldl (\<lambda>d (i, word). dict_set d word i) [] (enumerate 0 vocab)"
  define idf where
    "idf = foldl (\<lambda>d word. dict_set d word (idf_weight (length documents) (df documents word)))
             [] vocab"
  have slots: "i < length vocab" if "map_of vi w = Some i" for w i
    using that unfolding vi_def by (rule built_slots_in_range)
  have "\<exists>vs. vectorize_all vi idf (length vocab) documents = Inr vs
          \<and> length vs = length documents \<and> (\<forall>v \<in> set vs. length v = length vocab)"
    by (rule vectorize_all_total) (rule slots)
  then obtain vs where vs: "vectorize_all vi idf (length vocab) documents = Inr vs"
    and len: "length vs = length documents"
    by blast
  have "build_tfidf vocab documents = Inr (vs, vi, idf)"
    unfolding build_tfidf_def Let_def vi_def [symmetric] idf_def [symmetric]
    by (simp add: vs)
  with len show ?thesis
    by blast
qed

lemma build_tfidf_parts:
  assumes "build_tfidf vocab documents = Inr (vectors, vocab_index, idf)"
  shows "vocab_index = foldl (\<lambda>d (i, word). dict_set d word i) [] (enumerate 0 vocab)"
    and "idf = foldl (\<lambda>d word. dict_set d word (idf_weight (length documents) (df documents word)))
                 [] vocab"
    and "length vectors = length documents"
proof -
  from build_tfidf_total [of vocab documents] assms
  have len: "length vectors = length documents"
    by auto
  from assms show
    "vocab_index = foldl (\<lambda>d (i, word). dict_set d word i) [] (enumerate 0 vocab)"
    unfolding build_tfidf_def Let_def by (simp split: sum.splits)
  from assms show
    "idf = foldl (\<lambda>d word. dict_set d word (idf_weight (length documents) (df documents word)))
             [] vocab"
    unfolding build_tfidf_def Let_def by (simp split: sum.splits)
  from len show "length vectors = length documents" .
qed

lemma built_vocab_index:
  assumes "distinct vocab"
    and "build_tfidf vocab documents = Inr (vectors, vocab_index, idf)"
  shows "vocab_index = map (\<lambda>(i, word). (word, i)) (enumerate 0 vocab)"
  using build_tfidf_parts(1) [OF assms(2)] foldl_index_fresh [of vocab "[]" 0] assms(1)
  by simp

subsection \<open>Search\<close>

lemma search_with_ir_ranked:
  assumes len: "length doc_vectors = length books"
    and qv: "vectorize vocab_index idf (tokenize (Some query)) (length vocab_index) = Inr qv"
  shows "search_with_ir query books doc_vectors vocab_index idf
         = Inr (map (\<lambda>i. books ! i)
                  (filter (\<lambda>i. 0 < final_score (tokenize (Some query)) qv (books ! i) (doc_vectors ! i))
                     (map fst (rank (\<lambda>i. final_score (tokenize (Some query)) qv (books ! i)
                                            (doc_vectors ! i))
                                 [0..<length books]))))"
proof -
  define qt where "qt = tokenize (Some query)"
  define f where "f = (\<lambda>i. final_score qt qv (books ! i) (doc_vectors ! i))"
  define g where "g = (\<lambda>p :: nat \<times> real. (books ! fst p, snd p))"
  have scores: "score_all qt qv books (enumerate 0 doc_vectors)
                = Inr (map g (map (\<lambda>i. (i, f i)) [0..<length books]))"
    using score_all_enumerate [of 0 doc_vectors books qt qv] len
    by (simp add: enumerate_as_map g_def f_def comp_def)
  have sorted: "sort_reverse snd (map g (map (\<lambda>i. (i, f i)) [0..<length books]))
                = map g (rank f [0..<length books])"
  proof -
    have "(\<lambda>y. snd (g y)) = snd"
      by (simp add: g_def)
    then show ?thesis
      unfolding rank_def by (simp only: sort_reverse_map [of snd g])
  qed
  have snd_f: "snd p = f (fst p)" if "p \<in> set (rank f [0..<length books])" for p
    using that by (auto simp: rank_def)
  have "map fst (filter (\<lambda>(book, score). 0 < score) (map g (rank f [0..<length books])))
        = map (\<lambda>i. books ! i) (map fst (filter (\<lambda>p. 0 < snd p) (rank f [0..<length books])))"
    by (simp add: filter_map comp_def g_def case_prod_beta)
  also have "filter (\<lambda>p. 0 < snd p) (rank f [0..<length books])
             = filter (\<lambda>p. 0 < f (fst p)) (rank f [0..<length books])"
    by (rule filter_cong) (simp_all add: snd_f)
  also have "map fst (filter (\<lambda>p. 0 < f (fst p)) (rank f [0..<length books]))
             = filter (\<lambda>i. 0 < f i) (map fst (rank f [0..<length books]))"
    by (simp add: filter_map comp_def)
  finally have "map fst (filter (\<lambda>(book, score). 0 < score)
                  (sort_reverse snd (map g (map (\<lambda>i. (i, f i)) [0..<length books]))))
        = map (\<lambda>i. books ! i) (filter (\<lambda>i. 0 < f i) (map fst (rank f [0..<length books])))"
    by (simp only: sorted)
  then have "search_with_ir query books doc_vectors vocab_index idf
             = Inr (map (\<lambda>i. books ! i)
                      (filter (\<lambda>i. 0 < f i) (map fst (rank f [0..<length books]))))"
    using qv scores unfolding search_with_ir_def Let_def qt_def [symmetric]
    by simp
  then show ?thesis
    by (simp add: f_def qt_def)
qed

lemma built_index_vectorize:
  assumes "distinct vocab"
    and "build_tfidf vocab documents = Inr (vectors, vocab_index, idf)"
  shows "\<exists>qv. vectorize vocab_index idf tokens (length vocab_index) = Inr qv
           \<and> length qv = length vocab_index"
proof (rule vectorize_total)
  fix w i
  assume "map_of vocab_index w = Some i"
  moreover have "length vocab_index = length vocab"
    using built_vocab_index [OF assms] by simp
  ultimately show "i < length vocab_index"
    using built_slots_in_range [of vocab w i] build_tfidf_parts(1) [OF assms(2)] by simp
qed

lemma final_score_formula:
  "final_score query_tokens query_vector b doc_vec
   = cosine_similarity query_vector doc_vec * 4
     + 3 * real (length (filter (\<lambda>token. token \<in> set (tokenize (Some (title b)))) query_tokens))
     + 2 * real (length (filter (\<lambda>token. token \<in> set (tokenize (Some (author b)))) query_tokens))"
  by (simp add: final_score_def sum_list_triv)

lemma built_index_shape:
  assumes "is_listing vocab (vocab_set (map document_text books))"
    and "build_index vocab books = Inr (doc_vectors, vocab_index, idf)"
  shows "length doc_vectors = length books"
    and "\<exists>qv. vectorize vocab_index idf tokens (length vocab_index) = Inr qv"
proof -
  from assms(2) have built:
    "build_tfidf vocab (map document_text books) = Inr (doc_vectors, vocab_index, idf)"
    by (simp add: build_index_def)
  from build_tfidf_parts(3) [OF built] show "length doc_vectors = length books"
    by simp
  from assms(1) have "distinct vocab"
    by (simp add: is_listing_def)
  from built_index_vectorize [OF this built, of tokens]
  show "\<exists>qv. vectorize vocab_index idf tokens (length vocab_index) = Inr qv"
    by blast
qed

subsection \<open>Recommendation\<close>


lemma recommend_similar_ranked:
  assumes len: "length doc_vectors = length books"
    and range: "0 \<le> book_idx" "book_idx < int (length books)"
  shows "recommend_similar book_idx books doc_vectors top_n
         = Inr (map (\<lambda>i. books ! i)
                  (map fst (slice_to
                     (rank (\<lambda>i. cosine_similarity (doc_vectors ! nat book_idx) (doc_vectors ! i))
                        (filter (\<lambda>i. i \<noteq> nat book_idx) [0..<length books]))
                     top_n)))"
proof -
  define bi where "bi = nat book_idx"
  define base where "base = doc_vectors ! bi"
  define f where "f = (\<lambda>i. cosine_similarity base (doc_vectors ! i))"
  define g where "g = (\<lambda>p :: nat \<times> real. (books ! fst p, snd p))"
  define js where "js = filter (\<lambda>i. i \<noteq> bi) [0..<length books]"
  have "filter (\<lambda>(i, v). i \<noteq> bi) (enumerate 0 doc_vectors)
        = map (\<lambda>i. (i, doc_vectors ! i)) js"
    using len by (simp add: enumerate_as_map filter_map comp_def js_def)
  then have scores: "similar_all bi base books (enumerate 0 doc_vectors)
                = Inr (map g (map (\<lambda>i. (i, f i)) js))"
    using similar_all_enumerate [of 0 doc_vectors books bi base] len
    by (simp add: g_def f_def comp_def)
  have sorted: "sort_reverse snd (map g (map (\<lambda>i. (i, f i)) js)) = map g (rank f js)"
  proof -
    have "(\<lambda>y. snd (g y)) = snd"
      by (simp add: g_def)
    then show ?thesis
      unfolding rank_def by (simp only: sort_reverse_map [of snd g])
  qed
  have slice: "slice_to (map g xs) n = map g (slice_to xs n)" for xs n
    by (simp add: slice_to_def take_map)
  have "map fst (slice_to (sort_reverse snd (map g (map (\<lambda>i. (i, f i)) js))) top_n)
        = map (\<lambda>i. books ! i) (map fst (slice_to (rank f js) top_n))"
    by (simp only: sorted slice) (simp add: g_def comp_def)
  then have "recommend_similar book_idx books doc_vectors top_n
             = Inr (map (\<lambda>i. books ! i) (map fst (slice_to (rank f js) top_n)))"
    using scores range len
    unfolding recommend_similar_def Let_def bi_def [symmetric] base_def [symmetric]
    by simp
  then show ?thesis
    by (simp add: f_def js_def base_def bi_def)
qed

subsection \<open>A concrete index\<close>

lemma two_books_texts:
  "map document_text two_books = [''a x Tech '', ''b x Tech '']"
  by (simp add: two_books_def document_text_def mk_book_def)

lemma two_books_tokens:
  "tokenize (Some ''a x Tech '') = [''a'', ''x'', ''tech'']"
  "tokenize (Some ''b x Tech '') = [''b'', ''x'', ''tech'']"
  by code_simp+

lemma two_books_listing:
  "is_listing two_books_vocab (vocab_set (map document_text two_books))"
  by (auto simp add: is_listing_def vocab_set_def two_books_texts two_books_tokens
      two_books_vocab_def)

lemma two_books_counters:
  "Counter [''a'', ''x'', ''tech''] = [(''a'', 1), (''x'', 1), (''tech'', 1)]"
  "Counter [''b'', ''x'', ''tech''] = [(''b'', 1), (''x'', 1), (''tech'', 1)]"
  by code_simp+

lemma two_books_index:
  "build_index two_books_vocab two_books
   = Inr (two_books_vectors, two_books_vocab_index, two_books_idf)"
  by (simp add: build_index_def build_tfidf_def two_books_texts two_books_tokens
      two_books_vocab_def enumerate_eq_zip df_def idf_weight_def vectorize_def
      two_books_counters dict_get_def upt_rec
      two_books_vectors_def two_books_vocab_index_def two_books_idf_def)

subsection \<open>Cosine similarity in exact arithmetic\<close>

lemma cosine_similarity_alt:
  "cosine_similarity a b =
     (if a = [] \<or> b = [] \<or> sqrt (sumsq a) = 0 \<or> sqrt (sumsq b) = 0 then 0
      else dot a b / (sqrt (sumsq a) * sqrt (sumsq b)))"
  by (simp add: cosine_similarity_def dot_def sumsq_def Let_def)

lemma sumsq_nonneg: "0 \<le> sumsq a"
  by (induction a) (simp_all add: sumsq_def)

lemma sumsq_zero_iff: "sumsq a = 0 \<longleftrightarrow> (\<forall>x \<in> set a. x = 0)"
proof (induction a)
  case Nil
  then show ?case by (simp add: sumsq_def)
next
  case (Cons x a)
  have "sumsq (x # a) = x * x + sumsq a"
    by (simp add: sumsq_def)
  moreover have "0 \<le> x * x" by simp
  moreover have "0 \<le> sumsq a" by (rule sumsq_nonneg)
  ultimately have "sumsq (x # a) = 0 \<longleftrightarrow> x * x = 0 \<and> sumsq a = 0"
    by (simp add: add_nonneg_eq_0_iff)
  with Cons.IH show ?case by simp
qed

lemma dot_commute: "dot a b = dot b a"
proof -
  have "map (\<lambda>(x, y). x * y) (zip a b) = map (\<lambda>(x, y). x * y) (zip b a)"
    by (induction a arbitrary: b) (simp, case_tac b, simp_all add: mult.commute)
  then show ?thesis by (simp add: dot_def)
qed

lemma dot_self: "dot a a = sumsq a"
  by (induction a) (simp_all add: dot_def sumsq_def)






lemma cosine_similarity_self:
  assumes "\<exists>x \<in> set v. x \<noteq> 0"
  shows "cosine_similarity v v = 1"
proof -
  from assms have "sumsq v \<noteq> 0"
    by (simp add: sumsq_zero_iff)
  with sumsq_nonneg [of v] have pos: "0 < sumsq v"
    by simp
  from assms have "v \<noteq> []"
    by auto
  with pos show ?thesis
    by (simp add: cosine_similarity_alt dot_self)
qed

lemma cosine_similarity_commute: "cosine_similarity a b = cosine_similarity b a"
  by (auto simp add: cosine_similarity_alt dot_commute [of a b] mult.commute)


subsection \<open>Cosine similarity in binary64 arithmetic\<close>

lemma round_to_even_eq:
  assumes "of_int n - 1 / 2 < x" and "x < of_int n + 1 / 2"
  shows "round_to_even x = n"
proof (cases "of_int n \<le> x")
  case True
  with assms have "\<lfloor>x\<rfloor> = n"
    by (intro floor_unique) simp_all
  with assms show ?thesis
    by (simp add: round_to_even_def)
next
  case False
  with assms have "\<lfloor>x\<rfloor> = n - 1"
    by (intro floor_unique) simp_all
  with assms show ?thesis
    by (simp add: round_to_even_def)
qed

lemma binary64_eval:
  assumes lower: "2 powr of_int k \<le> x" and upper: "x < 2 powr (of_int k + 1)"
    and near: "of_int n - 1 / 2 < x / 2 powr of_int (k - 52)"
              "x / 2 powr of_int (k - 52) < of_int n + 1 / 2"
  shows "binary64 x = of_int n * 2 powr of_int (k - 52)"
proof -
  have "0 < (2::real) powr of_int k"
    by simp
  with lower have pos: "0 < x"
    by linarith
  then have "\<lfloor>log 2 \<bar>x\<bar>\<rfloor> = k"
    using lower upper by (simp add: floor_log_eq_powr_iff)
  moreover have "round_to_even (x / 2 powr of_int (k - 52)) = n"
    using near by (rule round_to_even_eq)
  ultimately show ?thesis
    using pos by (simp add: binary64_def)
qed

lemma binary64_1: "binary64 1 = 1"
  using binary64_eval [of 0 1 "2 ^ 52"] by (simp add: powr_neg_numeral)

lemma binary64_2: "binary64 2 = 2"
  using binary64_eval [of 1 2 "2 ^ 52"] by (simp add: powr_neg_numeral)


lemma sqrt2_bounds:
  "(6369051672525773 - 1 / 2) / 2 ^ 52 < sqrt 2"
  "sqrt 2 < (6369051672525773 + 1 / 2) / 2 ^ 52"
  by (rule real_less_rsqrt, simp add: power2_eq_square)
     (rule real_less_lsqrt, simp_all add: power2_eq_square)

lemma binary64_sqrt2: "binary64 (sqrt 2) = 6369051672525773 / 2 ^ 52"
proof -
  have "1 \<le> sqrt 2"
    by simp
  moreover have "sqrt 2 < 2"
    by (rule real_less_lsqrt) simp_all
  ultimately show ?thesis
    using binary64_eval [of 0 "sqrt 2" 6369051672525773] sqrt2_bounds
    by (simp add: powr_neg_numeral field_simps)
qed

lemma binary64_norms2:
  "binary64 (6369051672525773 / 2 ^ 52 * (6369051672525773 / 2 ^ 52)) = 4503599627370497 / 2 ^ 51"
  using binary64_eval [of 1 "6369051672525773 / 2 ^ 52 * (6369051672525773 / 2 ^ 52)"
      4503599627370497]
  by (simp add: powr_neg_numeral)

lemma binary64_quotient2:
  "binary64 (2 / (4503599627370497 / 2 ^ 51)) = 9007199254740990 / 2 ^ 53"
  using binary64_eval [of "- 1" "2 / (4503599627370497 / 2 ^ 51)" 9007199254740990]
  by (simp add: powr_neg_numeral)

lemma cosine_rounded_unfold:
  assumes "vec1 \<noteq> []" and "vec2 \<noteq> []"
    and "sum_rounded rnd (map (\<lambda>(a, b). rnd (a * b)) (zip vec1 vec2)) = d"
    and "rnd (sqrt (sum_rounded rnd (map (\<lambda>a. rnd (a * a)) vec1))) = n1"
    and "rnd (sqrt (sum_rounded rnd (map (\<lambda>b. rnd (b * b)) vec2))) = n2"
    and "n1 \<noteq> 0" and "n2 \<noteq> 0"
  shows "cosine_similarity_rounded rnd vec1 vec2 = rnd (d / rnd (n1 * n2))"
  using assms by (simp add: cosine_similarity_rounded_def)





lemma sum_rounded_exact: "sum_rounded (\<lambda>x. x) xs = sum_list xs"
proof -
  have "foldl (\<lambda>acc x. acc + x) s xs = s + sum_list xs" for s :: real
    by (induction xs arbitrary: s) simp_all
  from this [of 0] show ?thesis
    by (simp add: sum_rounded_def)
qed

lemma cosine_similarity_rounded_exact:
  "cosine_similarity_rounded (\<lambda>x. x) vec1 vec2 = cosine_similarity vec1 vec2"
  by (simp add: cosine_similarity_rounded_def cosine_similarity_def sum_rounded_exact)

lemma cosine_similarity_rounded_commute:
  "cosine_similarity_rounded rnd a b = cosine_similarity_rounded rnd b a"
proof -
  have "map (\<lambda>(x, y). rnd (x * y)) (zip a b) = map (\<lambda>(x, y). rnd (x * y)) (zip b a)"
    by (induction a arbitrary: b) (simp, case_tac b, simp_all add: mult.commute)
  then show ?thesis
    by (auto simp add: cosine_similarity_rounded_def Let_def mult.commute)
qed

subsection \<open>Properties of the rounding\<close>

lemma binary64_zero: "binary64 0 = 0"
  by (simp add: binary64_def)

lemma round_to_even_ge:
  assumes "of_int n \<le> x"
  shows "n \<le> round_to_even x"
proof -
  from assms have "n \<le> \<lfloor>x\<rfloor>"
    by (simp add: le_floor_iff)
  then show ?thesis
    by (simp add: round_to_even_def Let_def)
qed

lemma round_to_even_le:
  assumes "x \<le> of_int n"
  shows "round_to_even x \<le> n"
proof (cases "x = of_int \<lfloor>x\<rfloor>")
  case True
  then have "x - of_int \<lfloor>x\<rfloor> = 0"
    by simp
  then have "round_to_even x = \<lfloor>x\<rfloor>"
    by (simp add: round_to_even_def Let_def)
  moreover from assms have "\<lfloor>x\<rfloor> \<le> n"
    by (simp add: floor_le_iff)
  ultimately show ?thesis
    by simp
next
  case False
  then have "of_int \<lfloor>x\<rfloor> \<noteq> x"
    by metis
  then have "of_int \<lfloor>x\<rfloor> < x"
    using of_int_floor_le [of x] by (rule order.not_eq_order_implies_strict)
  with assms have "of_int \<lfloor>x\<rfloor> < (of_int n :: real)"
    by linarith
  then have "\<lfloor>x\<rfloor> + 1 \<le> n"
    by simp
  moreover have "round_to_even x \<le> \<lfloor>x\<rfloor> + 1"
    by (simp add: round_to_even_def Let_def)
  ultimately show ?thesis
    by linarith
qed

lemma round_to_even_of_int: "round_to_even (of_int n) = n"
  by (rule round_to_even_eq) simp_all

lemma binary64_nonneg:
  assumes "0 \<le> x"
  shows "0 \<le> binary64 x"
proof (cases "x = 0")
  case True
  then show ?thesis
    by (simp add: binary64_zero)
next
  case False
  define e where "e = \<lfloor>log 2 \<bar>x\<bar>\<rfloor> - 52"
  have "of_int 0 \<le> x / 2 powr of_int e"
    using assms by simp
  then have "0 \<le> round_to_even (x / 2 powr of_int e)"
    by (rule round_to_even_ge)
  then have "0 \<le> real_of_int (round_to_even (x / 2 powr of_int e)) * 2 powr of_int e"
    by simp
  with False show ?thesis
    by (simp add: binary64_def e_def)
qed

text \<open>A number of 53 significant bits is its own rounding.\<close>

lemma binary64_representable:
  assumes lower: "2 ^ 52 \<le> \<bar>m\<bar>" and upper: "\<bar>m\<bar> \<le> 2 ^ 53"
  shows "binary64 (of_int m * 2 powr of_int e) = of_int m * 2 powr of_int e"
proof -
  define y :: real where "y = of_int m * 2 powr of_int e"
  define a :: real where "a = \<bar>of_int m\<bar>"
  have a: "a = of_int \<bar>m\<bar>"
    by (simp add: a_def)
  have abs_y: "\<bar>y\<bar> = a * 2 powr of_int e"
    by (simp add: y_def a_def abs_mult)
  from lower have "m \<noteq> 0"
    by auto
  then have y0: "y \<noteq> 0"
    by (simp add: y_def)
  have pos: "0 < \<bar>y\<bar>"
    using y0 by simp
  have low: "2 ^ 52 \<le> a"
    unfolding a using lower by (metis of_int_le_iff of_int_numeral of_int_power)
  have p52: "(2::real) powr (of_int (e + 52)) = 2 ^ 52 * 2 powr of_int e"
    by (simp add: powr_add)
  have p53: "(2::real) powr (of_int (e + 53)) = 2 ^ 53 * 2 powr of_int e"
    by (simp add: powr_add)
  show ?thesis
  proof (cases "\<bar>m\<bar> = 2 ^ 53")
    case False
    with upper have "\<bar>m\<bar> < 2 ^ 53"
      by simp
    then have up': "a < 2 ^ 53"
      unfolding a by (metis of_int_less_iff of_int_numeral of_int_power)
    have "2 ^ 52 * 2 powr of_int e \<le> a * 2 powr of_int e"
      using low by (intro mult_right_mono) simp_all
    then have "2 powr of_int (e + 52) \<le> \<bar>y\<bar>"
      by (simp only: p52 abs_y)
    moreover have "\<bar>y\<bar> < 2 powr (of_int (e + 52) + 1)"
    proof -
      have "(2::real) powr (of_int (e + 52) + 1) = 2 ^ 53 * 2 powr of_int e"
        by (simp add: powr_add)
      moreover have "a * 2 powr of_int e < 2 ^ 53 * 2 powr of_int e"
        using up' by (intro mult_strict_right_mono) simp_all
      ultimately show ?thesis
        by (simp only: abs_y)
    qed
    ultimately have "\<lfloor>log 2 \<bar>y\<bar>\<rfloor> = e + 52"
      using pos by (simp only: floor_log_eq_powr_iff [of "\<bar>y\<bar>" 2 "e + 52"]) simp
    then have "binary64 y = of_int (round_to_even (y / 2 powr of_int e)) * 2 powr of_int e"
      using y0 by (simp add: binary64_def)
    also have "y / 2 powr of_int e = of_int m"
      by (simp add: y_def)
    finally show ?thesis
      by (simp add: round_to_even_of_int y_def)
  next
    case True
    then have eq: "a = 2 ^ 53"
      unfolding a by (metis of_int_numeral of_int_power)
    have abs_y': "\<bar>y\<bar> = 2 powr of_int (e + 53)"
      by (simp only: abs_y eq p53)
    have "\<lfloor>log 2 \<bar>y\<bar>\<rfloor> = e + 53"
      unfolding abs_y' by (simp add: floor_log_eq_powr_iff)
    then have "\<lfloor>log 2 \<bar>y\<bar>\<rfloor> - 52 = e + 1"
      by simp
    then have "binary64 y
               = of_int (round_to_even (y / 2 powr of_int (e + 1))) * 2 powr of_int (e + 1)"
      using y0 by (simp only: binary64_def Let_def if_False)
    moreover have "even \<bar>m\<bar>"
      unfolding True by simp
    then have "even m"
      by (simp only: dvd_abs_iff)
    then obtain h where h: "m = 2 * h"
      by (auto elim: evenE)
    have "y / 2 powr of_int (e + 1) = of_int h"
      by (simp add: y_def h powr_add)
    ultimately have "binary64 y = of_int h * 2 powr of_int (e + 1)"
      by (simp add: round_to_even_of_int)
    then show ?thesis
      by (simp add: y_def h powr_add)
  qed
qed

lemma binary64_idem: "binary64 (binary64 x) = binary64 x"
proof (cases "x = 0")
  case True
  then show ?thesis
    by (simp add: binary64_zero)
next
  case False
  define k where "k = \<lfloor>log 2 \<bar>x\<bar>\<rfloor>"
  define e where "e = k - 52"
  define t where "t = x / 2 powr of_int e"
  define m where "m = round_to_even t"
  have val: "binary64 x = of_int m * 2 powr of_int e"
    using False by (simp add: binary64_def m_def t_def e_def k_def)
  from False have "0 < \<bar>x\<bar>"
    by simp
  then have bounds: "2 powr of_int k \<le> \<bar>x\<bar>" "\<bar>x\<bar> < 2 powr (of_int k + 1)"
    using floor_log_eq_powr_iff [of "\<bar>x\<bar>" 2 k] by (simp_all add: k_def)
  have scale: "(2::real) powr of_int k = 2 ^ 52 * 2 powr of_int e"
    "(2::real) powr (of_int k + 1) = 2 ^ 53 * 2 powr of_int e"
    by (simp_all add: e_def powr_diff powr_add)
  have abs_t: "\<bar>t\<bar> = \<bar>x\<bar> / 2 powr of_int e"
    by (simp add: t_def)
  have t_low: "2 ^ 52 \<le> \<bar>t\<bar>"
    using bounds(1) unfolding scale abs_t by (simp add: pos_le_divide_eq)
  have t_up: "\<bar>t\<bar> < 2 ^ 53"
    using bounds(2) unfolding scale abs_t by (simp add: pos_divide_less_eq)
  have "2 ^ 52 \<le> \<bar>m\<bar> \<and> \<bar>m\<bar> \<le> 2 ^ 53"
  proof (cases "0 \<le> t")
    case True
    with t_low t_up have "of_int (2 ^ 52) \<le> t" "t \<le> of_int (2 ^ 53)"
      by simp_all
    then have "2 ^ 52 \<le> m" "m \<le> 2 ^ 53"
      unfolding m_def by (simp_all only: round_to_even_ge round_to_even_le)
    then show ?thesis
      by simp
  next
    case False
    with t_low t_up have "t \<le> of_int (- (2 ^ 52))" "of_int (- (2 ^ 53)) \<le> t"
      by simp_all
    then have "m \<le> - (2 ^ 52)" "- (2 ^ 53) \<le> m"
      unfolding m_def by (simp_all only: round_to_even_ge round_to_even_le)
    then show ?thesis
      by simp
  qed
  then have "binary64 (of_int m * 2 powr of_int e) = of_int m * 2 powr of_int e"
    by (intro binary64_representable) simp_all
  then show ?thesis
    by (simp add: val)
qed

subsection \<open>Rounded sums and zero entries\<close>

lemma sum_rounded_snoc:
  "sum_rounded rnd (xs @ [x]) = rnd (sum_rounded rnd xs + x)"
  by (simp add: sum_rounded_def)

lemma sum_rounded_fixed:
  assumes "rnd 0 = 0" and "\<And>x. rnd (rnd x) = rnd x"
  shows "rnd (sum_rounded rnd xs) = sum_rounded rnd xs"
proof (induction xs rule: rev_induct)
  case Nil
  then show ?case
    by (simp add: sum_rounded_def assms(1))
next
  case (snoc x xs)
  then show ?case
    by (simp add: sum_rounded_snoc assms(2))
qed

lemma sum_rounded_append_zeros:
  assumes "rnd 0 = 0" and "\<And>x. rnd (rnd x) = rnd x"
  shows "sum_rounded rnd (xs @ replicate n 0) = sum_rounded rnd xs"
proof (induction n)
  case 0
  then show ?case by simp
next
  case (Suc n)
  have "sum_rounded rnd (xs @ replicate (Suc n) 0)
        = sum_rounded rnd ((xs @ replicate n 0) @ [0])"
    by (simp add: replicate_append_same)
  also have "\<dots> = rnd (sum_rounded rnd (xs @ replicate n 0) + 0)"
    by (rule sum_rounded_snoc)
  also have "\<dots> = rnd (sum_rounded rnd xs)"
    by (simp add: Suc.IH)
  also have "\<dots> = sum_rounded rnd xs"
    by (rule sum_rounded_fixed [OF assms])
  finally show ?case .
qed

lemma sum_rounded_nonneg:
  assumes "\<And>x. 0 \<le> x \<Longrightarrow> 0 \<le> rnd x" and "\<forall>x \<in> set xs. 0 \<le> x"
  shows "0 \<le> sum_rounded rnd xs"
  using assms(2)
proof (induction xs rule: rev_induct)
  case Nil
  then show ?case
    by (simp add: sum_rounded_def)
next
  case (snoc x xs)
  then have "0 \<le> sum_rounded rnd xs + x"
    by simp
  then show ?case
    unfolding sum_rounded_snoc by (rule assms(1))
qed

lemma products_pad_left:
  fixes rnd :: "real \<Rightarrow> real"
  assumes "rnd 0 = 0" and "length a \<le> length b"
  shows "map (\<lambda>(x, y). rnd (x * y)) (zip (a @ replicate (length b - length a) 0) b)
         = map (\<lambda>(x, y). rnd (x * y)) (zip a b) @ replicate (length b - length a) 0"
  using assms(2)
proof (induction a arbitrary: b)
  case Nil
  show ?case
    by (induction b) (simp_all add: assms(1) replicate_append_same)
next
  case (Cons x a)
  then obtain y b' where b: "b = y # b'"
    by (cases b) auto
  with Cons show ?case
    by simp
qed

lemma products_pad_right:
  fixes rnd :: "real \<Rightarrow> real"
  assumes "rnd 0 = 0" and "length b \<le> length a"
  shows "map (\<lambda>(x, y). rnd (x * y)) (zip a (b @ replicate (length a - length b) 0))
         = map (\<lambda>(x, y). rnd (x * y)) (zip a b) @ replicate (length a - length b) 0"
  using assms(2)
proof (induction b arbitrary: a)
  case Nil
  show ?case
    by (induction a) (simp_all add: assms(1) replicate_append_same)
next
  case (Cons y b)
  then obtain x a' where a: "a = x # a'"
    by (cases a) auto
  with Cons show ?case
    by simp
qed

lemma squares_pad:
  fixes rnd :: "real \<Rightarrow> real"
  assumes "rnd 0 = 0"
  shows "map (\<lambda>x. rnd (x * x)) (pad_zeros n v) = map (\<lambda>x. rnd (x * x)) v @ replicate (n - length v) 0"
  by (simp add: pad_zeros_def assms)

lemma cosine_similarity_rounded_pad:
  assumes zero: "rnd 0 = 0" and idem: "\<And>x. rnd (rnd x) = rnd x"
  shows "cosine_similarity_rounded rnd a b
         = cosine_similarity_rounded rnd (pad_zeros (length b) a) (pad_zeros (length a) b)"
proof (cases "a = [] \<or> b = []")
  case True
  have zeros: "sum_rounded rnd (replicate n 0) = 0" for n
    using sum_rounded_append_zeros [OF zero idem, of "[]" n]
    by (simp add: sum_rounded_def)
  from True show ?thesis
  proof
    assume "a = []"
    then show ?thesis
      by (simp add: cosine_similarity_rounded_def pad_zeros_def zeros zero Let_def)
  next
    assume "b = []"
    then show ?thesis
      by (simp add: cosine_similarity_rounded_def pad_zeros_def zeros zero Let_def)
  qed
next
  case False
  have norm: "sum_rounded rnd (map (\<lambda>x. rnd (x * x)) (pad_zeros n v))
              = sum_rounded rnd (map (\<lambda>x. rnd (x * x)) v)" for n v
    by (simp only: squares_pad [of rnd, OF zero] sum_rounded_append_zeros [OF zero idem])
  have dot: "sum_rounded rnd (map (\<lambda>(x, y). rnd (x * y))
                 (zip (pad_zeros (length b) a) (pad_zeros (length a) b)))
             = sum_rounded rnd (map (\<lambda>(x, y). rnd (x * y)) (zip a b))"
  proof (cases "length a \<le> length b")
    case True
    then have "pad_zeros (length a) b = b"
      by (simp add: pad_zeros_def)
    then show ?thesis
      by (simp only: pad_zeros_def products_pad_left [of rnd, OF zero True]
          sum_rounded_append_zeros [OF zero idem])
  next
    case False
    then have le: "length b \<le> length a"
      by simp
    then have "pad_zeros (length b) a = a"
      by (simp add: pad_zeros_def)
    then show ?thesis
      by (simp only: pad_zeros_def products_pad_right [of rnd, OF zero le]
          sum_rounded_append_zeros [OF zero idem])
  qed
  from False have "pad_zeros (length b) a \<noteq> []" "pad_zeros (length a) b \<noteq> []"
    by (simp_all add: pad_zeros_def)
  with False show ?thesis
    by (simp add: cosine_similarity_rounded_def norm dot)
qed

lemma length_pad_zeros: "length (pad_zeros n v) = max n (length v)"
  by (simp add: pad_zeros_def)

lemma cosine_similarity_rounded_nonneg:
  assumes rnd: "\<And>x. 0 \<le> x \<Longrightarrow> 0 \<le> rnd x"
    and a: "\<forall>x \<in> set a. 0 \<le> x" and b: "\<forall>y \<in> set b. 0 \<le> y"
  shows "0 \<le> cosine_similarity_rounded rnd a b"
proof -
  have products: "\<forall>p \<in> set (map (\<lambda>(x, y). rnd (x * y)) (zip a b)). 0 \<le> p"
  proof
    fix p
    assume "p \<in> set (map (\<lambda>(x, y). rnd (x * y)) (zip a b))"
    then obtain x y where "(x, y) \<in> set (zip a b)" and p: "p = rnd (x * y)"
      by auto
    then have "x \<in> set a" "y \<in> set b"
      by (auto dest: set_zip_leftD set_zip_rightD)
    with a b have "0 \<le> x * y"
      by simp
    then show "0 \<le> p"
      unfolding p by (rule rnd)
  qed
  have dot: "0 \<le> sum_rounded rnd (map (\<lambda>(x, y). rnd (x * y)) (zip a b))"
  proof (rule sum_rounded_nonneg)
    show "0 \<le> rnd x" if "0 \<le> x" for x
      using that by (rule rnd)
    show "\<forall>p \<in> set (map (\<lambda>(x, y). rnd (x * y)) (zip a b)). 0 \<le> p"
      by (rule products)
  qed
  have norm: "0 \<le> rnd (sqrt (sum_rounded rnd (map (\<lambda>x. rnd (x * x)) v)))" for v
  proof -
    have "0 \<le> sum_rounded rnd (map (\<lambda>x. rnd (x * x)) v)"
    proof (rule sum_rounded_nonneg)
      show "0 \<le> rnd x" if "0 \<le> x" for x
        using that by (rule rnd)
      show "\<forall>p \<in> set (map (\<lambda>x. rnd (x * x)) v). 0 \<le> p"
        by (auto intro: rnd)
    qed
    then have "0 \<le> sqrt (sum_rounded rnd (map (\<lambda>x. rnd (x * x)) v))"
      by simp
    then show ?thesis
      by (rule rnd)
  qed
  have "0 \<le> rnd (sum_rounded rnd (map (\<lambda>(x, y). rnd (x * y)) (zip a b))
               / rnd (rnd (sqrt (sum_rounded rnd (map (\<lambda>x. rnd (x * x)) a)))
                      * rnd (sqrt (sum_rounded rnd (map (\<lambda>x. rnd (x * x)) b)))))"
    by (intro rnd divide_nonneg_nonneg mult_nonneg_nonneg dot norm)
  then show ?thesis
    by (simp add: cosine_similarity_rounded_def Let_def)
qed

subsection \<open>The logarithm of 3/2\<close>

lemma exp_series_upper:
  fixes x :: real
  assumes "0 \<le> x" and "x \<le> 1 / 2"
  shows "exp x \<le> (\<Sum>m<n. x ^ m / fact m) + 2 * x ^ n / fact n"
proof -
  from Maclaurin_exp_le [of x n] obtain t where t: "\<bar>t\<bar> \<le> \<bar>x\<bar>"
    and e: "exp x = (\<Sum>m<n. x ^ m / fact m) + exp t / fact n * x ^ n"
    by blast
  from t assms have "norm t \<le> 1 / 2"
    by simp
  then have "norm (exp t) \<le> 2"
    by (rule exp_bound_half)
  then have "exp t \<le> 2"
    by simp
  then have "exp t / fact n * x ^ n \<le> 2 / fact n * x ^ n"
    using assms(1) by (intro mult_right_mono divide_right_mono) simp_all
  with e show ?thesis
    by simp
qed

lemma exp_series_lower:
  fixes x :: real
  assumes "0 \<le> x"
  shows "(\<Sum>m<n. x ^ m / fact m) \<le> exp x"
proof -
  from Maclaurin_exp_le [of x n] obtain t where
    e: "exp x = (\<Sum>m<n. x ^ m / fact m) + exp t / fact n * x ^ n"
    by blast
  have "0 \<le> exp t / fact n * x ^ n"
    using assms by simp
  with e show ?thesis
    by simp
qed

lemma ln_3_2_lower: "147420799 / 363584427 < ln (3 / 2 :: real)"
proof -
  define a :: real where "a = 147420799 / 363584427"
  have "exp a \<le> (\<Sum>m<15. a ^ m / fact m) + 2 * a ^ 15 / fact 15"
    by (rule exp_series_upper) (simp_all add: a_def)
  also have "\<dots> < 3 / 2"
    by (simp add: a_def eval_nat_numeral lessThan_Suc fact_numeral)
  finally have "exp a < exp (ln (3 / 2))"
    by simp
  then have "a < ln (3 / 2)"
    by (simp only: exp_less_cancel_iff)
  then show ?thesis
    by (simp only: a_def)
qed

lemma ln_3_2_upper: "ln (3 / 2 :: real) < 108841776 / 268436849"
proof -
  define b :: real where "b = 108841776 / 268436849"
  have "3 / 2 < (\<Sum>m<15. b ^ m / fact m)"
    by (simp add: b_def eval_nat_numeral lessThan_Suc fact_numeral)
  also have "\<dots> \<le> exp b"
    by (rule exp_series_lower) (simp add: b_def)
  finally have "exp (ln (3 / 2)) < exp b"
    by simp
  then have "ln (3 / 2) < b"
    by (simp only: exp_less_cancel_iff)
  then show ?thesis
    by (simp only: b_def)
qed

subsection \<open>Vectors of a built index\<close>

lemma set_fst_dict_set: "fst ` set (dict_set d k v) = insert k (fst ` set d)"
  by (induction d k v rule: dict_set.induct) auto

lemma distinct_dict_set:
  "distinct (map fst d) \<Longrightarrow> distinct (map fst (dict_set d k v))"
proof (induction d k v rule: dict_set.induct)
  case (1 k v)
  then show ?case by simp
next
  case (2 k' v' d k v)
  show ?case
  proof (cases "k' = k")
    case True
    with 2 show ?thesis by simp
  next
    case False
    from 2 have "k' \<notin> fst ` set d" and "distinct (map fst (dict_set d k v))"
      using False by simp_all
    with False show ?thesis
      by (simp add: set_fst_dict_set [simplified])
  qed
qed

lemma Counter_foldl_distinct:
  "distinct (map fst d)
   \<Longrightarrow> distinct (map fst (foldl (\<lambda>tf w. dict_set tf w (dict_get tf w 0 + 1)) d tokens))"
  by (induction tokens arbitrary: d) (simp_all add: distinct_dict_set)

lemma Counter_foldl_map_of:
  "map_of (foldl (\<lambda>tf w. dict_set tf w (dict_get tf w 0 + 1)) d tokens) w
   = (if w \<in> set tokens then Some (dict_get d w 0 + count_list tokens w) else map_of d w)"
proof (induction tokens arbitrary: d)
  case Nil
  then show ?case by simp
next
  case (Cons t tokens)
  define d' where "d' = dict_set d t (dict_get d t 0 + 1)"
  have d': "map_of d' = (map_of d)(t \<mapsto> dict_get d t 0 + 1)"
    by (simp add: d'_def map_of_dict_set)
  have "map_of (foldl (\<lambda>tf w. dict_set tf w (dict_get tf w 0 + 1)) d (t # tokens)) w
        = map_of (foldl (\<lambda>tf w. dict_set tf w (dict_get tf w 0 + 1)) d' tokens) w"
    by (simp add: d'_def)
  also have "\<dots> = (if w \<in> set tokens then Some (dict_get d' w 0 + count_list tokens w)
                     else map_of d' w)"
    by (rule Cons.IH)
  also have "\<dots> = (if w \<in> set (t # tokens)
                     then Some (dict_get d w 0 + count_list (t # tokens) w) else map_of d w)"
    by (simp add: dict_get_def d')
  finally show ?case .
qed

lemma distinct_Counter: "distinct (map fst (Counter tokens))"
  unfolding Counter_def by (rule Counter_foldl_distinct) simp

lemma map_of_Counter:
  "map_of (Counter tokens) w = (if w \<in> set tokens then Some (count_list tokens w) else None)"
proof -
  have "map_of (Counter tokens) w
        = (if w \<in> set tokens then Some (dict_get [] w 0 + count_list tokens w)
           else map_of [] w)"
    unfolding Counter_def by (rule Counter_foldl_map_of)
  then show ?thesis
    by (simp add: dict_get_def)
qed

lemma set_Counter: "fst ` set (Counter tokens) = set tokens"
proof -
  have "fst ` set (Counter tokens) = dom (map_of (Counter tokens))"
    by (simp add: dom_map_of_conv_image_fst)
  also have "\<dots> = set tokens"
    by (auto simp add: dom_def map_of_Counter)
  finally show ?thesis .
qed

lemma first_occurrences_listing:
  "is_listing (first_occurrences documents) (vocab_set documents)"
  by (simp add: is_listing_def first_occurrences_def distinct_Counter set_Counter
      vocab_set_def)

lemma map_of_listed_index:
  assumes "distinct vocab"
  shows "map_of (map (\<lambda>(i, word). (word, i)) (enumerate 0 vocab)) w = Some i
         \<longleftrightarrow> i < length vocab \<and> vocab ! i = w"
proof -
  have eq: "map (\<lambda>(i, word). (word, i)) (enumerate 0 vocab) = zip vocab [0..<length vocab]"
    by (rule nth_equalityI) (simp_all add: nth_enumerate_eq)
  show ?thesis
  proof
    assume "map_of (map (\<lambda>(i, word). (word, i)) (enumerate 0 vocab)) w = Some i"
    then have "(w, i) \<in> set (zip vocab [0..<length vocab])"
      unfolding eq by (rule map_of_SomeD)
    then show "i < length vocab \<and> vocab ! i = w"
      by (auto simp: set_zip)
  next
    assume "i < length vocab \<and> vocab ! i = w"
    then have "(w, i) \<in> set (zip vocab [0..<length vocab])"
      by (auto simp: set_zip)
    moreover have "distinct (map fst (zip vocab [0..<length vocab]))"
      using assms by simp
    ultimately show "map_of (map (\<lambda>(i, word). (word, i)) (enumerate 0 vocab)) w = Some i"
      unfolding eq by (rule map_of_is_SomeI [rotated])
  qed
qed

lemma store_weights_listed:
  assumes vocab: "distinct vocab"
    and vi: "vocab_index = map (\<lambda>(i, word). (word, i)) (enumerate 0 vocab)"
    and tf: "distinct (map fst tf)"
    and len: "length vector = length vocab"
  shows "store_weights vocab_index idf tf vector
         = Inr (map (\<lambda>i. case map_of tf (vocab ! i) of
                            None \<Rightarrow> vector ! i
                          | Some c \<Rightarrow> real c * dict_get idf (vocab ! i) 0)
                  [0..<length vocab])"
  using tf len
proof (induction tf arbitrary: vector)
  case Nil
  have "map ((!) vector) [0..<length vector] = vector"
    by (rule map_nth)
  with Nil show ?case
    by simp
next
  case (Cons p tf)
  obtain word count where p: "p = (word, count)"
    by (cases p)
  from Cons.prems(1) p have fresh: "map_of tf word = None" and tf: "distinct (map fst tf)"
    by (simp_all add: map_of_eq_None_iff)
  show ?case
  proof (cases "map_of vocab_index word")
    case None
    then have "vocab ! i \<noteq> word" if "i < length vocab" for i
      using that map_of_listed_index [OF vocab, of word i] vi by auto
    then have "map (\<lambda>i. case map_of (p # tf) (vocab ! i) of
                            None \<Rightarrow> vector ! i
                          | Some c \<Rightarrow> real c * dict_get idf (vocab ! i) 0) [0..<length vocab]
               = map (\<lambda>i. case map_of tf (vocab ! i) of
                            None \<Rightarrow> vector ! i
                          | Some c \<Rightarrow> real c * dict_get idf (vocab ! i) 0) [0..<length vocab]"
      by (intro map_cong) (simp_all add: p)
    with None Cons.IH [OF tf Cons.prems(2)] show ?thesis
      by (simp add: p)
  next
    case (Some j)
    then have j: "j < length vocab" "vocab ! j = word"
      using map_of_listed_index [OF vocab, of word j] vi by auto
    define vector' where "vector' = vector[j := real count * dict_get idf word 0]"
    have len': "length vector' = length vocab"
      by (simp add: vector'_def Cons.prems(2))
    have other: "vocab ! i \<noteq> word" if "i < length vocab" "i \<noteq> j" for i
      using that j vocab by (auto simp: nth_eq_iff_index_eq)
    have "map (\<lambda>i. case map_of tf (vocab ! i) of
                      None \<Rightarrow> vector' ! i
                    | Some c \<Rightarrow> real c * dict_get idf (vocab ! i) 0) [0..<length vocab]
          = map (\<lambda>i. case map_of (p # tf) (vocab ! i) of
                      None \<Rightarrow> vector ! i
                    | Some c \<Rightarrow> real c * dict_get idf (vocab ! i) 0) [0..<length vocab]"
    proof (rule map_cong [OF refl])
      fix i
      assume "i \<in> set [0..<length vocab]"
      then have i: "i < length vocab"
        by simp
      show "(case map_of tf (vocab ! i) of
               None \<Rightarrow> vector' ! i
             | Some c \<Rightarrow> real c * dict_get idf (vocab ! i) 0)
            = (case map_of (p # tf) (vocab ! i) of
                 None \<Rightarrow> vector ! i
               | Some c \<Rightarrow> real c * dict_get idf (vocab ! i) 0)"
      proof (cases "i = j")
        case True
        with j fresh i Cons.prems(2) show ?thesis
          by (simp add: p vector'_def)
      next
        case False
        with other [OF i] show ?thesis
          by (simp add: p vector'_def split: option.split)
      qed
    qed
    with Some j Cons.IH [OF tf len'] Cons.prems(2) show ?thesis
      by (simp add: p vector'_def)
  qed
qed

lemma vectorize_listed:
  assumes "distinct vocab"
    and "vocab_index = map (\<lambda>(i, word). (word, i)) (enumerate 0 vocab)"
  shows "vectorize vocab_index idf tokens (length vocab)
         = Inr (map (\<lambda>w. real (count_list tokens w) * dict_get idf w 0) vocab)"
proof -
  have "vectorize vocab_index idf tokens (length vocab)
        = Inr (map (\<lambda>i. case map_of (Counter tokens) (vocab ! i) of
                            None \<Rightarrow> replicate (length vocab) 0 ! i
                          | Some c \<Rightarrow> real c * dict_get idf (vocab ! i) 0)
                  [0..<length vocab])"
    unfolding vectorize_def
    by (rule store_weights_listed [OF assms distinct_Counter]) simp
  also have "map (\<lambda>i. case map_of (Counter tokens) (vocab ! i) of
                            None \<Rightarrow> replicate (length vocab) 0 ! i
                          | Some c \<Rightarrow> real c * dict_get idf (vocab ! i) 0)
                  [0..<length vocab]
             = map (\<lambda>i. real (count_list tokens (vocab ! i)) * dict_get idf (vocab ! i) 0)
                 [0..<length vocab]"
    by (rule map_cong [OF refl]) (simp add: map_of_Counter count_list_0_iff)
  also have "\<dots> = map (\<lambda>w. real (count_list tokens w) * dict_get idf w 0) vocab"
    by (rule nth_equalityI) simp_all
  finally show ?thesis .
qed

lemma vectorize_all_listed:
  assumes "distinct vocab"
    and "vocab_index = map (\<lambda>(i, word). (word, i)) (enumerate 0 vocab)"
  shows "vectorize_all vocab_index idf (length vocab) documents
         = Inr (map (\<lambda>doc. map (\<lambda>w. real (count_list (tokenize (Some doc)) w) * dict_get idf w 0)
                              vocab)
                  documents)"
  by (induction documents) (simp_all add: vectorize_listed [OF assms])

lemma built_idf_get:
  assumes "build_tfidf vocab documents = Inr (vectors, vocab_index, idf)"
    and "w \<in> set vocab"
  shows "dict_get idf w 0 = idf_weight (length documents) (df documents w)"
proof -
  have "map_of idf w = Some (idf_weight (length documents) (df documents w))"
    using assms(2) by (simp only: build_tfidf_parts(2) [OF assms(1)] map_of_foldl_idf if_True)
  then show ?thesis
    by (simp add: dict_get_def)
qed

lemma built_vectors:
  assumes vocab: "distinct vocab"
    and built: "build_tfidf vocab documents = Inr (vectors, vocab_index, idf)"
  shows "vectors = map (\<lambda>doc. map (weight documents (tokenize (Some doc))) vocab) documents"
    and "vectorize vocab_index idf tokens (length vocab_index)
         = Inr (map (weight documents tokens) vocab)"
proof -
  note vi = built_vocab_index [OF vocab built]
  have get: "map (\<lambda>w. real (count_list ts w) * dict_get idf w 0) vocab
             = map (weight documents ts) vocab" for ts
    by (rule map_cong [OF refl]) (simp add: weight_def built_idf_get [OF built])
  have "vectorize_all vocab_index idf (length vocab) documents
        = Inr (map (\<lambda>doc. map (weight documents (tokenize (Some doc))) vocab) documents)"
    by (simp only: vectorize_all_listed [OF vocab vi] get)
  moreover have "vectorize_all vocab_index idf (length vocab) documents = Inr vectors"
    using built build_tfidf_parts(1,2) [OF built]
    unfolding build_tfidf_def Let_def by (simp split: sum.splits)
  ultimately show "vectors = map (\<lambda>doc. map (weight documents (tokenize (Some doc))) vocab)
                               documents"
    by simp
  have "length vocab_index = length vocab"
    by (simp add: vi)
  then show "vectorize vocab_index idf tokens (length vocab_index)
             = Inr (map (weight documents tokens) vocab)"
    by (simp only: vectorize_listed [OF vocab vi] get)
qed

subsection \<open>Cosine similarity does not depend on the order of the slots\<close>

lemma dot_listing:
  assumes "distinct vs"
  shows "dot (map f vs) (map g vs) = (\<Sum>w \<in> set vs. f w * g w)"
proof -
  have "map (\<lambda>(x, y). x * y) (zip (map f vs) (map g vs)) = map (\<lambda>w. f w * g w) vs"
    by (induction vs) simp_all
  then have "dot (map f vs) (map g vs) = sum_list (map (\<lambda>w. f w * g w) vs)"
    by (simp add: dot_def)
  also have "\<dots> = (\<Sum>w \<in> set vs. f w * g w)"
    using assms by (rule sum_list_distinct_conv_sum_set)
  finally show ?thesis .
qed

lemma sumsq_listing:
  assumes "distinct vs"
  shows "sumsq (map f vs) = (\<Sum>w \<in> set vs. f w * f w)"
proof -
  have "sumsq (map f vs) = sum_list (map (\<lambda>w. f w * f w) vs)"
    by (simp add: sumsq_def comp_def)
  also have "\<dots> = (\<Sum>w \<in> set vs. f w * f w)"
    using assms by (rule sum_list_distinct_conv_sum_set)
  finally show ?thesis .
qed

lemma cosine_similarity_listing:
  assumes "distinct vs" and "distinct vs'" and "set vs = set vs'"
  shows "cosine_similarity (map f vs) (map g vs) = cosine_similarity (map f vs') (map g vs')"
proof -
  have "vs = [] \<longleftrightarrow> vs' = []"
    using assms(3) by (metis set_empty)
  then show ?thesis
    by (simp add: cosine_similarity_alt dot_listing sumsq_listing assms)
qed

lemma rank_cong:
  assumes "\<And>i. i \<in> set js \<Longrightarrow> f i = g i"
  shows "rank f js = rank g js"
proof -
  have "map (\<lambda>i. (i, f i)) js = map (\<lambda>i. (i, g i)) js"
    by (rule map_cong [OF refl]) (simp add: assms)
  then show ?thesis
    unfolding rank_def by (rule arg_cong)
qed

subsection \<open>The loops in rounded arithmetic\<close>

lemma score_all_rounded_enumerate:
  assumes "n + length vs \<le> length books"
  shows "score_all_rounded rnd qt qv books (enumerate n vs)
         = Inr (map (\<lambda>(i, v). (books ! i, final_score_rounded rnd qt qv (books ! i) v))
                  (enumerate n vs))"
  using assms by (induction vs arbitrary: n) simp_all

lemma similar_all_rounded_enumerate:
  assumes "n + length vs \<le> length books"
  shows "similar_all_rounded rnd bi base books (enumerate n vs)
         = Inr (map (\<lambda>(i, v). (books ! i, cosine_similarity_rounded rnd base v))
                  (filter (\<lambda>(i, v). i \<noteq> bi) (enumerate n vs)))"
  using assms by (induction vs arbitrary: n) simp_all

lemma store_weights_rounded_total:
  assumes "\<And>w i. map_of vocab_index w = Some i \<Longrightarrow> i < length vector"
  shows "\<exists>v. store_weights_rounded rnd vocab_index idf tf vector = Inr v
           \<and> length v = length vector"
  using assms
proof (induction tf arbitrary: vector)
  case Nil
  then show ?case by simp
next
  case (Cons p tf)
  obtain word count where p: "p = (word, count)"
    by (cases p)
  show ?case
  proof (cases "map_of vocab_index word")
    case None
    with Cons p show ?thesis by simp
  next
    case (Some idx)
    then have idx: "idx < length vector"
      by (rule Cons.prems)
    let ?v = "vector[idx := rnd (real count * dict_get idf word 0)]"
    have "\<exists>v. store_weights_rounded rnd vocab_index idf tf ?v = Inr v \<and> length v = length ?v"
      by (rule Cons.IH) (simp add: Cons.prems)
    with Some idx p show ?thesis by simp
  qed
qed

lemma vectorize_rounded_total:
  assumes "\<And>w i. map_of vocab_index w = Some i \<Longrightarrow> i < n"
  shows "\<exists>v. vectorize_rounded rnd vocab_index idf tokens n = Inr v \<and> length v = n"
  using store_weights_rounded_total [of vocab_index "replicate n 0" rnd idf "Counter tokens"]
    assms
  by (simp add: vectorize_rounded_def)

lemma search_with_ir_rounded_ranked:
  assumes len: "length doc_vectors = length books"
    and qv: "vectorize_rounded rnd vocab_index idf (tokenize (Some query)) (length vocab_index)
             = Inr qv"
  shows "search_with_ir_rounded rnd query books doc_vectors vocab_index idf
         = Inr (map (\<lambda>i. books ! i)
                  (filter (\<lambda>i. 0 < final_score_rounded rnd (tokenize (Some query)) qv (books ! i)
                                     (doc_vectors ! i))
                     (map fst (rank (\<lambda>i. final_score_rounded rnd (tokenize (Some query)) qv
                                            (books ! i) (doc_vectors ! i))
                                 [0..<length books]))))"
proof -
  define qt where "qt = tokenize (Some query)"
  define f where "f = (\<lambda>i. final_score_rounded rnd qt qv (books ! i) (doc_vectors ! i))"
  define g where "g = (\<lambda>p :: nat \<times> real. (books ! fst p, snd p))"
  have scores: "score_all_rounded rnd qt qv books (enumerate 0 doc_vectors)
                = Inr (map g (map (\<lambda>i. (i, f i)) [0..<length books]))"
    using score_all_rounded_enumerate [of 0 doc_vectors books rnd qt qv] len
    by (simp add: enumerate_as_map g_def f_def comp_def)
  have sorted: "sort_reverse snd (map g (map (\<lambda>i. (i, f i)) [0..<length books]))
                = map g (rank f [0..<length books])"
  proof -
    have "(\<lambda>y. snd (g y)) = snd"
      by (simp add: g_def)
    then show ?thesis
      unfolding rank_def by (simp only: sort_reverse_map [of snd g])
  qed
  have snd_f: "snd p = f (fst p)" if "p \<in> set (rank f [0..<length books])" for p
    using that by (auto simp: rank_def)
  have "map fst (filter (\<lambda>(book, score). 0 < score) (map g (rank f [0..<length books])))
        = map (\<lambda>i. books ! i) (map fst (filter (\<lambda>p. 0 < snd p) (rank f [0..<length books])))"
    by (simp add: filter_map comp_def g_def case_prod_beta)
  also have "filter (\<lambda>p. 0 < snd p) (rank f [0..<length books])
             = filter (\<lambda>p. 0 < f (fst p)) (rank f [0..<length books])"
    by (rule filter_cong) (simp_all add: snd_f)
  also have "map fst (filter (\<lambda>p. 0 < f (fst p)) (rank f [0..<length books]))
             = filter (\<lambda>i. 0 < f i) (map fst (rank f [0..<length books]))"
    by (simp add: filter_map comp_def)
  finally have "map fst (filter (\<lambda>(book, score). 0 < score)
                  (sort_reverse snd (map g (map (\<lambda>i. (i, f i)) [0..<length books]))))
        = map (\<lambda>i. books ! i) (filter (\<lambda>i. 0 < f i) (map fst (rank f [0..<length books])))"
    by (simp only: sorted)
  then have "search_with_ir_rounded rnd query books doc_vectors vocab_index idf
             = Inr (map (\<lambda>i. books ! i)
                      (filter (\<lambda>i. 0 < f i) (map fst (rank f [0..<length books]))))"
    using qv scores unfolding search_with_ir_rounded_def Let_def qt_def [symmetric]
    by simp
  then show ?thesis
    by (simp add: f_def qt_def)
qed

lemma recommend_similar_rounded_ranked:
  assumes len: "length doc_vectors = length books"
    and range: "0 \<le> book_idx" "book_idx < int (length books)"
  shows "recommend_similar_rounded rnd book_idx books doc_vectors top_n
         = Inr (map (\<lambda>i. books ! i)
                  (map fst (slice_to
                     (rank (\<lambda>i. cosine_similarity_rounded rnd (doc_vectors ! nat book_idx)
                                  (doc_vectors ! i))
                        (filter (\<lambda>i. i \<noteq> nat book_idx) [0..<length books]))
                     top_n)))"
proof -
  define bi where "bi = nat book_idx"
  define base where "base = doc_vectors ! bi"
  define f where "f = (\<lambda>i. cosine_similarity_rounded rnd base (doc_vectors ! i))"
  define g where "g = (\<lambda>p :: nat \<times> real. (books ! fst p, snd p))"
  define js where "js = filter (\<lambda>i. i \<noteq> bi) [0..<length books]"
  have "filter (\<lambda>(i, v). i \<noteq> bi) (enumerate 0 doc_vectors)
        = map (\<lambda>i. (i, doc_vectors ! i)) js"
    using len by (simp add: enumerate_as_map filter_map comp_def js_def)
  then have scores: "similar_all_rounded rnd bi base books (enumerate 0 doc_vectors)
                = Inr (map g (map (\<lambda>i. (i, f i)) js))"
    using similar_all_rounded_enumerate [of 0 doc_vectors books rnd bi base] len
    by (simp add: g_def f_def comp_def)
  have sorted: "sort_reverse snd (map g (map (\<lambda>i. (i, f i)) js)) = map g (rank f js)"
  proof -
    have "(\<lambda>y. snd (g y)) = snd"
      by (simp add: g_def)
    then show ?thesis
      unfolding rank_def by (simp only: sort_reverse_map [of snd g])
  qed
  have slice: "slice_to (map g xs) n = map g (slice_to xs n)" for xs n
    by (simp add: slice_to_def take_map)
  have "map fst (slice_to (sort_reverse snd (map g (map (\<lambda>i. (i, f i)) js))) top_n)
        = map (\<lambda>i. books ! i) (map fst (slice_to (rank f js) top_n))"
    by (simp only: sorted slice) (simp add: g_def comp_def)
  then have "recommend_similar_rounded rnd book_idx books doc_vectors top_n
             = Inr (map (\<lambda>i. books ! i) (map fst (slice_to (rank f js) top_n)))"
    using scores range len
    unfolding recommend_similar_rounded_def Let_def bi_def [symmetric] base_def [symmetric]
    by simp
  then show ?thesis
    by (simp add: f_def js_def base_def bi_def)
qed

lemma vectorize_all_rounded_total:
  assumes "\<And>w i. map_of vocab_index w = Some i \<Longrightarrow> i < n"
  shows "\<exists>vs. vectorize_all_rounded rnd vocab_index idf n documents = Inr vs
           \<and> length vs = length documents \<and> (\<forall>v \<in> set vs. length v = n)"
proof (induction documents)
  case Nil
  then show ?case by simp
next
  case (Cons doc documents)
  from vectorize_rounded_total [of vocab_index n rnd idf "tokenize (Some doc)"] assms
  obtain v where "vectorize_rounded rnd vocab_index idf (tokenize (Some doc)) n = Inr v"
    "length v = n"
    by blast
  with Cons.IH show ?case by auto
qed

lemma build_tfidf_rounded_total:
  "\<exists>vectors vocab_index idf.
     build_tfidf_rounded rnd lg vocab documents = Inr (vectors, vocab_index, idf)
     \<and> length vectors = length documents"
proof -
  define vi where "vi = foldl (\<lambda>d (i, word). dict_set d word i) [] (enumerate 0 vocab)"
  define idf where
    "idf = foldl (\<lambda>d word. dict_set d word
                    (idf_weight_rounded rnd lg (length documents) (df documents word)))
             [] vocab"
  have slots: "i < length vocab" if "map_of vi w = Some i" for w i
    using that unfolding vi_def by (rule built_slots_in_range)
  have "\<exists>vs. vectorize_all_rounded rnd vi idf (length vocab) documents = Inr vs
          \<and> length vs = length documents \<and> (\<forall>v \<in> set vs. length v = length vocab)"
    by (rule vectorize_all_rounded_total) (rule slots)
  then obtain vs where vs: "vectorize_all_rounded rnd vi idf (length vocab) documents = Inr vs"
    and len: "length vs = length documents"
    by blast
  have "build_tfidf_rounded rnd lg vocab documents = Inr (vs, vi, idf)"
    unfolding build_tfidf_rounded_def Let_def vi_def [symmetric] idf_def [symmetric]
    by (simp add: vs)
  with len show ?thesis
    by blast
qed

lemma build_tfidf_rounded_parts:
  assumes "build_tfidf_rounded rnd lg vocab documents = Inr (vectors, vocab_index, idf)"
  shows "vocab_index = foldl (\<lambda>d (i, word). dict_set d word i) [] (enumerate 0 vocab)"
    and "idf = foldl (\<lambda>d word. dict_set d word
                        (idf_weight_rounded rnd lg (length documents) (df documents word)))
                 [] vocab"
    and "length vectors = length documents"
proof -
  from build_tfidf_rounded_total [of rnd lg vocab documents] assms
  have len: "length vectors = length documents"
    by auto
  from assms show
    "vocab_index = foldl (\<lambda>d (i, word). dict_set d word i) [] (enumerate 0 vocab)"
    unfolding build_tfidf_rounded_def Let_def by (simp split: sum.splits)
  from assms show
    "idf = foldl (\<lambda>d word. dict_set d word
                    (idf_weight_rounded rnd lg (length documents) (df documents word)))
             [] vocab"
    unfolding build_tfidf_rounded_def Let_def by (simp split: sum.splits)
  from len show "length vectors = length documents" .
qed

lemma built_rounded_index_shape:
  assumes "is_listing vocab (vocab_set (map document_text books))"
    and "build_index_rounded rnd lg vocab books = Inr (doc_vectors, vocab_index, idf)"
  shows "length doc_vectors = length books"
    and "\<exists>qv. vectorize_rounded rnd vocab_index idf tokens (length vocab_index) = Inr qv"
proof -
  from assms(2) have built:
    "build_tfidf_rounded rnd lg vocab (map document_text books)
     = Inr (doc_vectors, vocab_index, idf)"
    by (simp add: build_index_rounded_def)
  from build_tfidf_rounded_parts(3) [OF built] show "length doc_vectors = length books"
    by simp
  from assms(1) have "distinct vocab"
    by (simp add: is_listing_def)
  then have vi: "vocab_index = map (\<lambda>(i, word). (word, i)) (enumerate 0 vocab)"
    using build_tfidf_rounded_parts(1) [OF built] foldl_index_fresh [of vocab "[]" 0]
    by simp
  have "\<exists>qv. vectorize_rounded rnd vocab_index idf tokens (length vocab_index) = Inr qv
          \<and> length qv = length vocab_index"
  proof (rule vectorize_rounded_total)
    fix w i
    assume "map_of vocab_index w = Some i"
    moreover have "length vocab_index = length vocab"
      using vi by simp
    ultimately show "i < length vocab_index"
      using built_slots_in_range [of vocab w i] build_tfidf_rounded_parts(1) [OF built]
      by simp
  qed
  then show "\<exists>qv. vectorize_rounded rnd vocab_index idf tokens (length vocab_index) = Inr qv"
    by blast
qed

subsection \<open>Exact arithmetic is the identity rounding\<close>

lemma store_weights_rounded_exact:
  "store_weights_rounded (\<lambda>x. x) vocab_index idf tf vector
   = store_weights vocab_index idf tf vector"
  by (induction tf arbitrary: vector) (auto split: option.splits)

lemma vectorize_rounded_exact:
  "vectorize_rounded (\<lambda>x. x) vocab_index idf tokens n = vectorize vocab_index idf tokens n"
  by (simp add: vectorize_rounded_def vectorize_def store_weights_rounded_exact)

lemma vectorize_all_rounded_exact:
  "vectorize_all_rounded (\<lambda>x. x) vocab_index idf n documents
   = vectorize_all vocab_index idf n documents"
  by (induction documents) (simp_all add: vectorize_rounded_exact split: sum.splits)

lemma build_tfidf_rounded_exact:
  "build_tfidf_rounded (\<lambda>x. x) ln vocab documents = build_tfidf vocab documents"
proof -
  have "idf_weight_rounded (\<lambda>x. x) ln = idf_weight"
    by (simp add: fun_eq_iff idf_weight_rounded_def idf_weight_def)
  then show ?thesis
    by (simp add: build_tfidf_rounded_def build_tfidf_def vectorize_all_rounded_exact
        Let_def split: sum.splits)
qed

lemma final_score_rounded_exact:
  "final_score_rounded (\<lambda>x. x) qt qv b v = final_score qt qv b v"
  by (simp add: final_score_rounded_def final_score_def cosine_similarity_rounded_exact)

lemma score_all_rounded_exact:
  "score_all_rounded (\<lambda>x. x) qt qv books ivs = score_all qt qv books ivs"
  by (induction ivs) (auto simp add: final_score_rounded_exact split: sum.splits)

lemma search_with_ir_rounded_exact:
  "search_with_ir_rounded (\<lambda>x. x) query books doc_vectors vocab_index idf
   = search_with_ir query books doc_vectors vocab_index idf"
  by (simp add: search_with_ir_rounded_def search_with_ir_def vectorize_rounded_exact
      score_all_rounded_exact Let_def split: sum.splits)

lemma similar_all_rounded_exact:
  "similar_all_rounded (\<lambda>x. x) bi base books ivs = similar_all bi base books ivs"
  by (induction ivs) (auto simp add: cosine_similarity_rounded_exact split: sum.splits)

lemma recommend_similar_rounded_exact:
  "recommend_similar_rounded (\<lambda>x. x) book_idx books doc_vectors top_n
   = recommend_similar book_idx books doc_vectors top_n"
  by (simp add: recommend_similar_rounded_def recommend_similar_def similar_all_rounded_exact
      Let_def split: sum.splits)

subsection \<open>The index of two books that tie\<close>

lemma math_log_3_2: "math_log (3 / 2) = 1826052509787667 / 2 ^ 52"
proof -
  have "1 / 4 \<le> ln (3 / 2 :: real)"
    using ln_3_2_lower by simp
  moreover have "ln (3 / 2 :: real) < 1 / 2"
    using ln_3_2_upper by simp
  moreover have "(7304210039150668 - 1 / 2) / 2 ^ 54 < ln (3 / 2 :: real)"
    using ln_3_2_lower by simp
  moreover have "ln (3 / 2 :: real) < (7304210039150668 + 1 / 2) / 2 ^ 54"
    using ln_3_2_upper by simp
  ultimately have "binary64 (ln (3 / 2)) = 1826052509787667 / 2 ^ 52"
    using binary64_eval [of "- 2" "ln (3 / 2)" 7304210039150668]
    by (simp add: powr_neg_numeral field_simps)
  then show ?thesis
    by (simp add: math_log_def)
qed

lemma binary64_3_2: "binary64 (3 / 2) = 3 / 2"
  using binary64_eval [of 0 "3 / 2" "3 * 2 ^ 51"] by (simp add: powr_neg_numeral)

lemma binary64_log_plus_1: "binary64 (1826052509787667 / 2 ^ 52 + 1) = tie_weight"
  using binary64_eval [of 0 "1826052509787667 / 2 ^ 52 + 1" 6329652137158163]
  by (simp add: powr_neg_numeral tie_weight_def)

lemma binary64_tie_weight: "binary64 tie_weight = tie_weight"
  using binary64_eval [of 0 "6329652137158163 / 2 ^ 52" 6329652137158163]
  by (simp add: powr_neg_numeral tie_weight_def)

lemma math_log_1: "math_log 1 = 0"
  by (simp add: math_log_def binary64_zero)

lemma tie_idf_weights:
  "idf_weight_rounded binary64 math_log 2 1 = tie_weight"
  "idf_weight_rounded binary64 math_log 2 2 = 1"
proof -
  have ratio: "(real 2 + 1) / (real 1 + 1) = 3 / 2"
    by simp
  show "idf_weight_rounded binary64 math_log 2 1 = tie_weight"
    unfolding idf_weight_rounded_def ratio
    by (simp only: binary64_3_2 math_log_3_2 binary64_log_plus_1)
  show "idf_weight_rounded binary64 math_log 2 2 = 1"
    by (simp add: idf_weight_rounded_def math_log_1 binary64_1)
qed

lemma tie_idf_weights_Suc:
  "idf_weight_rounded binary64 math_log (Suc (Suc 0)) (Suc 0) = tie_weight"
  "idf_weight_rounded binary64 math_log (Suc (Suc 0)) 2 = 1"
  using tie_idf_weights by (simp_all add: numeral_2_eq_2)

lemma tie_texts: "map document_text tie_books = [''a b c d x'', ''e f g h x'']"
  by (simp add: tie_books_def document_text_def)

lemma tie_tokens:
  "tokenize (Some ''a b c d x'') = [''a'', ''b'', ''c'', ''d'', ''x'']"
  "tokenize (Some ''e f g h x'') = [''e'', ''f'', ''g'', ''h'', ''x'']"
  "tokenize (Some ''x'') = [''x'']"
  "tokenize (Some ''a'') = [''a'']"
  "tokenize (Some ''b'') = [''b'']"
  "tokenize (Some ''e'') = [''e'']"
  "tokenize (Some ''f'') = [''f'']"
  by code_simp+

lemma tie_counters:
  "Counter [''a'', ''b'', ''c'', ''d'', ''x'']
   = [(''a'', 1), (''b'', 1), (''c'', 1), (''d'', 1), (''x'', 1)]"
  "Counter [''e'', ''f'', ''g'', ''h'', ''x'']
   = [(''e'', 1), (''f'', 1), (''g'', 1), (''h'', 1), (''x'', 1)]"
  "Counter [''x''] = [(''x'', 1)]"
  by code_simp+

lemma tie_listings:
  "is_listing tie_vocab1 (vocab_set (map document_text tie_books))"
  "is_listing tie_vocab2 (vocab_set (map document_text tie_books))"
  by (auto simp add: is_listing_def vocab_set_def tie_texts tie_tokens tie_vocab1_def
      tie_vocab2_def)

lemma tie_df:
  "df [''a b c d x'', ''e f g h x''] ''x'' = 2"
  "w \<in> set [''a'', ''b'', ''c'', ''d'', ''e'', ''f'', ''g'', ''h'']
   \<Longrightarrow> df [''a b c d x'', ''e f g h x''] w = 1"
  by (auto simp add: df_def tie_tokens)

lemma tie_index1:
  "build_index_rounded binary64 math_log tie_vocab1 tie_books
   = Inr (tie_vectors1, tie_vocab_index1, tie_idf1)"
  by (simp add: build_index_rounded_def build_tfidf_rounded_def tie_texts tie_tokens
      tie_vocab1_def enumerate_eq_zip tie_df tie_idf_weights_Suc vectorize_rounded_def
      tie_counters dict_get_def upt_rec binary64_tie_weight binary64_1
      tie_vectors1_def tie_vocab_index1_def tie_idf1_def)

lemma tie_index2:
  "build_index_rounded binary64 math_log tie_vocab2 tie_books
   = Inr (tie_vectors2, tie_vocab_index2, tie_idf2)"
  by (simp add: build_index_rounded_def build_tfidf_rounded_def tie_texts tie_tokens
      tie_vocab2_def enumerate_eq_zip tie_df tie_idf_weights_Suc vectorize_rounded_def
      tie_counters dict_get_def upt_rec binary64_tie_weight binary64_1
      tie_vectors2_def tie_vocab_index2_def tie_idf2_def)

lemma tie_query1:
  "vectorize_rounded binary64 tie_vocab_index1 tie_idf1 [''x''] (length tie_vocab_index1)
   = Inr [0, 0, 0, 0, 0, 0, 0, 0, 1]"
  by (simp add: vectorize_rounded_def tie_counters tie_vocab_index1_def tie_idf1_def
      dict_get_def binary64_1 eval_nat_numeral)

lemma tie_query2:
  "vectorize_rounded binary64 tie_vocab_index2 tie_idf2 [''x''] (length tie_vocab_index2)
   = Inr [0, 0, 0, 0, 0, 0, 0, 1, 0]"
  by (simp add: vectorize_rounded_def tie_counters tie_vocab_index2_def tie_idf2_def
      dict_get_def binary64_1 eval_nat_numeral)

lemma round_to_even_half:
  "round_to_even (of_int f + 1 / 2) = (if even f then f else f + 1)"
proof -
  have "\<lfloor>real_of_int f + 1 / 2\<rfloor> = f"
    by (rule floor_unique) simp_all
  then show ?thesis
    by (simp add: round_to_even_def)
qed

lemma binary64_eval_half:
  assumes lower: "2 powr of_int k \<le> x" and upper: "x < 2 powr (of_int k + 1)"
    and half: "x / 2 powr of_int (k - 52) = of_int f + 1 / 2"
  shows "binary64 x = of_int (if even f then f else f + 1) * 2 powr of_int (k - 52)"
proof -
  have "0 < (2::real) powr of_int k"
    by simp
  with lower have pos: "0 < x"
    by linarith
  then have "\<lfloor>log 2 \<bar>x\<bar>\<rfloor> = k"
    using lower upper by (simp add: floor_log_eq_powr_iff)
  moreover have "round_to_even (x / 2 powr of_int (k - 52)) = (if even f then f else f + 1)"
    unfolding half by (rule round_to_even_half)
  ultimately show ?thesis
    using pos by (simp add: binary64_def)
qed

lemmas fold_rules =
  sum_rounded_def foldl.simps list.map zip_Cons_Cons zip_Nil prod.case
  mult_zero_left mult_zero_right mult_1 mult_1_right add_0 add_0_right
  binary64_zero real_sqrt_one

lemma final_score_rounded_no_match:
  assumes "cosine_similarity_rounded rnd qv dv = c"
    and "set qt \<inter> set (tokenize (Some (title b))) = {}"
    and "set qt \<inter> set (tokenize (Some (author b))) = {}"
  shows "final_score_rounded rnd qt qv b dv = rnd (rnd (rnd (c * 4) + 0) + 0)"
proof -
  have "filter (\<lambda>token. token \<in> set (tokenize (Some (title b)))) qt = []"
    using assms(2) by (auto simp: filter_empty_conv)
  moreover have "filter (\<lambda>token. token \<in> set (tokenize (Some (author b)))) qt = []"
    using assms(3) by (auto simp: filter_empty_conv)
  ultimately show ?thesis
    by (simp add: final_score_rounded_def assms(1))
qed

lemma rank_two:
  "rank f [0..<2] = (if f 0 < f 1 then [(1, f 1), (0, f 0)] else [(0, f 0), (1, f 1)])"
  by (simp add: rank_def sort_reverse_def upt_rec numeral_2_eq_2)

lemma tie_round_1: "binary64 (1) = 1"
  using binary64_eval [of "0" "1" 4503599627370496]
  by (simp add: powr_neg_numeral)

lemma tie_round_2: "binary64 ((6329652137158163 / 2 ^ 52) * (6329652137158163 / 2 ^ 52)) = 8896105225238071 / 2 ^ 52"
  using binary64_eval [of "0" "(6329652137158163 / 2 ^ 52) * (6329652137158163 / 2 ^ 52)" 8896105225238071]
  by (simp add: powr_neg_numeral)

lemma tie_round_3: "binary64 (8896105225238071 / 2 ^ 52) = 8896105225238071 / 2 ^ 52"
  using binary64_eval [of "0" "8896105225238071 / 2 ^ 52" 8896105225238071]
  by (simp add: powr_neg_numeral)

lemma tie_round_4: "binary64 ((8896105225238071 / 2 ^ 52) + (8896105225238071 / 2 ^ 52)) = 8896105225238071 / 2 ^ 51"
  using binary64_eval [of "1" "(8896105225238071 / 2 ^ 52) + (8896105225238071 / 2 ^ 52)" 8896105225238071]
  by (simp add: powr_neg_numeral)

lemma tie_round_5: "binary64 ((8896105225238071 / 2 ^ 51) + (8896105225238071 / 2 ^ 52)) = 6672078918928553 / 2 ^ 50"
  using binary64_eval [of "2" "(8896105225238071 / 2 ^ 51) + (8896105225238071 / 2 ^ 52)" 6672078918928553]
  by (simp add: powr_neg_numeral)

lemma tie_round_6: "binary64 ((6672078918928553 / 2 ^ 50) + (8896105225238071 / 2 ^ 52)) = 8896105225238071 / 2 ^ 50"
  using binary64_eval [of "2" "(6672078918928553 / 2 ^ 50) + (8896105225238071 / 2 ^ 52)" 8896105225238071]
  by (simp add: powr_neg_numeral)

lemma tie_round_7: "binary64 (8896105225238071 / 2 ^ 50) = 8896105225238071 / 2 ^ 50"
  using binary64_eval [of "2" "8896105225238071 / 2 ^ 50" 8896105225238071]
  by (simp add: powr_neg_numeral)

lemma tie_round_8: "binary64 ((8896105225238071 / 2 ^ 50) + 1) = 1252750641510087 / 2 ^ 47"
  using binary64_eval_half [of "3" "(8896105225238071 / 2 ^ 50) + 1" 5011002566040347]
  by (simp add: powr_neg_numeral)

lemma tie_round_9_bounds:
  "(6718266039562874 - 1 / 2) / 2 ^ 51 < sqrt (1252750641510087 / 2 ^ 47)"
  "sqrt (1252750641510087 / 2 ^ 47) < (6718266039562874 + 1 / 2) / 2 ^ 51"
  by (rule real_less_rsqrt, simp add: power2_eq_square)
     (rule real_less_lsqrt, simp_all add: power2_eq_square)

lemma tie_round_9: "binary64 (sqrt (1252750641510087 / 2 ^ 47)) = 3359133019781437 / 2 ^ 50"
proof -
  have "2 \<le> sqrt (1252750641510087 / 2 ^ 47)"
    by (rule real_le_rsqrt) (simp add: power2_eq_square)
  moreover have "sqrt (1252750641510087 / 2 ^ 47) < 4"
    by (rule real_less_lsqrt) (simp_all add: power2_eq_square)
  ultimately show ?thesis
    using binary64_eval [of "1" "sqrt (1252750641510087 / 2 ^ 47)" 6718266039562874] tie_round_9_bounds
    by (simp add: powr_neg_numeral field_simps)
qed

lemma tie_round_10: "binary64 (3359133019781437 / 2 ^ 50) = 3359133019781437 / 2 ^ 50"
  using binary64_eval [of "1" "3359133019781437 / 2 ^ 50" 6718266039562874]
  by (simp add: powr_neg_numeral)

lemma tie_round_11: "binary64 (1 / (3359133019781437 / 2 ^ 50)) = 6037989411021107 / 2 ^ 54"
  using binary64_eval [of "- 2" "1 / (3359133019781437 / 2 ^ 50)" 6037989411021107]
  by (simp add: powr_neg_numeral)

lemma tie_round_12: "binary64 ((6037989411021107 / 2 ^ 54) * 4) = 6037989411021107 / 2 ^ 52"
  using binary64_eval [of "0" "(6037989411021107 / 2 ^ 54) * 4" 6037989411021107]
  by (simp add: powr_neg_numeral)

lemma tie_round_13: "binary64 (6037989411021107 / 2 ^ 52) = 6037989411021107 / 2 ^ 52"
  using binary64_eval [of "0" "6037989411021107 / 2 ^ 52" 6037989411021107]
  by (simp add: powr_neg_numeral)

lemma tie_round_14: "binary64 (1252750641510087 / 2 ^ 47) = 1252750641510087 / 2 ^ 47"
  using binary64_eval [of "3" "1252750641510087 / 2 ^ 47" 5011002566040348]
  by (simp add: powr_neg_numeral)

lemma tie_round_15: "binary64 ((6672078918928553 / 2 ^ 50) + 1) = 7797978825771177 / 2 ^ 50"
  using binary64_eval [of "2" "(6672078918928553 / 2 ^ 50) + 1" 7797978825771177]
  by (simp add: powr_neg_numeral)

lemma tie_round_16: "binary64 ((7797978825771177 / 2 ^ 50) + (8896105225238071 / 2 ^ 52)) = 5011002566040347 / 2 ^ 49"
  using binary64_eval [of "3" "(7797978825771177 / 2 ^ 50) + (8896105225238071 / 2 ^ 52)" 5011002566040347]
  by (simp add: powr_neg_numeral)

lemma tie_round_17_bounds:
  "(6718266039562873 - 1 / 2) / 2 ^ 51 < sqrt (5011002566040347 / 2 ^ 49)"
  "sqrt (5011002566040347 / 2 ^ 49) < (6718266039562873 + 1 / 2) / 2 ^ 51"
  by (rule real_less_rsqrt, simp add: power2_eq_square)
     (rule real_less_lsqrt, simp_all add: power2_eq_square)

lemma tie_round_17: "binary64 (sqrt (5011002566040347 / 2 ^ 49)) = 6718266039562873 / 2 ^ 51"
proof -
  have "2 \<le> sqrt (5011002566040347 / 2 ^ 49)"
    by (rule real_le_rsqrt) (simp add: power2_eq_square)
  moreover have "sqrt (5011002566040347 / 2 ^ 49) < 4"
    by (rule real_less_lsqrt) (simp_all add: power2_eq_square)
  ultimately show ?thesis
    using binary64_eval [of "1" "sqrt (5011002566040347 / 2 ^ 49)" 6718266039562873] tie_round_17_bounds
    by (simp add: powr_neg_numeral field_simps)
qed

lemma tie_round_18: "binary64 (6718266039562873 / 2 ^ 51) = 6718266039562873 / 2 ^ 51"
  using binary64_eval [of "1" "6718266039562873 / 2 ^ 51" 6718266039562873]
  by (simp add: powr_neg_numeral)

lemma tie_round_19: "binary64 (1 / (6718266039562873 / 2 ^ 51)) = 1509497352755277 / 2 ^ 52"
  using binary64_eval [of "- 2" "1 / (6718266039562873 / 2 ^ 51)" 6037989411021108]
  by (simp add: powr_neg_numeral)

lemma tie_round_20: "binary64 ((1509497352755277 / 2 ^ 52) * 4) = 1509497352755277 / 2 ^ 50"
  using binary64_eval [of "0" "(1509497352755277 / 2 ^ 52) * 4" 6037989411021108]
  by (simp add: powr_neg_numeral)

lemma tie_round_21: "binary64 (1509497352755277 / 2 ^ 50) = 1509497352755277 / 2 ^ 50"
  using binary64_eval [of "0" "1509497352755277 / 2 ^ 50" 6037989411021108]
  by (simp add: powr_neg_numeral)

lemmas tie_rounding = tie_round_1 tie_round_2 tie_round_3 tie_round_4 tie_round_5 tie_round_6 tie_round_7 tie_round_8 tie_round_9 tie_round_10 tie_round_11 tie_round_12 tie_round_13 tie_round_14 tie_round_15 tie_round_16 tie_round_17 tie_round_18 tie_round_19 tie_round_20 tie_round_21

lemma tie_cosine1_0:
  "cosine_similarity_rounded binary64 [0, 0, 0, 0, 0, 0, 0, 0, 1] (tie_vectors1 ! 0) = 6037989411021107 / 2 ^ 54"
proof -
  have v: "tie_vectors1 ! 0 = [6329652137158163 / 2 ^ 52, 6329652137158163 / 2 ^ 52, 6329652137158163 / 2 ^ 52, 6329652137158163 / 2 ^ 52, 0, 0, 0, 0, 1]"
    by (simp add: tie_vectors1_def tie_weight_def)
  have d: "sum_rounded binary64 (map (\<lambda>(a, b). binary64 (a * b)) (zip [0, 0, 0, 0, 0, 0, 0, 0, 1] [6329652137158163 / 2 ^ 52, 6329652137158163 / 2 ^ 52, 6329652137158163 / 2 ^ 52, 6329652137158163 / 2 ^ 52, 0, 0, 0, 0, 1])) = 1"
    by (simp only: fold_rules tie_rounding)
  have n1: "binary64 (sqrt (sum_rounded binary64 (map (\<lambda>a. binary64 (a * a)) [0, 0, 0, 0, 0, 0, 0, 0, 1]))) = 1"
    by (simp only: fold_rules tie_rounding)
  have n2: "binary64 (sqrt (sum_rounded binary64 (map (\<lambda>a. binary64 (a * a)) [6329652137158163 / 2 ^ 52, 6329652137158163 / 2 ^ 52, 6329652137158163 / 2 ^ 52, 6329652137158163 / 2 ^ 52, 0, 0, 0, 0, 1]))) = 3359133019781437 / 2 ^ 50"
    by (simp only: fold_rules tie_rounding)
  have "cosine_similarity_rounded binary64 [0, 0, 0, 0, 0, 0, 0, 0, 1] [6329652137158163 / 2 ^ 52, 6329652137158163 / 2 ^ 52, 6329652137158163 / 2 ^ 52, 6329652137158163 / 2 ^ 52, 0, 0, 0, 0, 1]
        = binary64 (1 / binary64 (1 * (3359133019781437 / 2 ^ 50)))"
    by (rule cosine_rounded_unfold [OF _ _ d n1 n2]) simp_all
  also have "\<dots> = 6037989411021107 / 2 ^ 54"
    by (simp only: fold_rules tie_rounding)
  finally show ?thesis
    by (simp only: v)
qed

lemma tie_score1_0:
  "final_score_rounded binary64 (tokenize (Some ''x'')) [0, 0, 0, 0, 0, 0, 0, 0, 1] (tie_books ! 0) (tie_vectors1 ! 0)
   = 6037989411021107 / 2 ^ 52"
proof -
  have "final_score_rounded binary64 (tokenize (Some ''x'')) [0, 0, 0, 0, 0, 0, 0, 0, 1] (tie_books ! 0)
          (tie_vectors1 ! 0)
        = binary64 (binary64 (binary64 (6037989411021107 / 2 ^ 54 * 4) + 0) + 0)"
    by (rule final_score_rounded_no_match [OF tie_cosine1_0])
       (simp_all add: tie_books_def tie_tokens)
  also have "\<dots> = 6037989411021107 / 2 ^ 52"
    by (simp only: fold_rules tie_rounding)
  finally show ?thesis .
qed

lemma tie_cosine1_1:
  "cosine_similarity_rounded binary64 [0, 0, 0, 0, 0, 0, 0, 0, 1] (tie_vectors1 ! 1) = 6037989411021107 / 2 ^ 54"
proof -
  have v: "tie_vectors1 ! 1 = [0, 0, 0, 0, 6329652137158163 / 2 ^ 52, 6329652137158163 / 2 ^ 52, 6329652137158163 / 2 ^ 52, 6329652137158163 / 2 ^ 52, 1]"
    by (simp add: tie_vectors1_def tie_weight_def)
  have d: "sum_rounded binary64 (map (\<lambda>(a, b). binary64 (a * b)) (zip [0, 0, 0, 0, 0, 0, 0, 0, 1] [0, 0, 0, 0, 6329652137158163 / 2 ^ 52, 6329652137158163 / 2 ^ 52, 6329652137158163 / 2 ^ 52, 6329652137158163 / 2 ^ 52, 1])) = 1"
    by (simp only: fold_rules tie_rounding)
  have n1: "binary64 (sqrt (sum_rounded binary64 (map (\<lambda>a. binary64 (a * a)) [0, 0, 0, 0, 0, 0, 0, 0, 1]))) = 1"
    by (simp only: fold_rules tie_rounding)
  have n2: "binary64 (sqrt (sum_rounded binary64 (map (\<lambda>a. binary64 (a * a)) [0, 0, 0, 0, 6329652137158163 / 2 ^ 52, 6329652137158163 / 2 ^ 52, 6329652137158163 / 2 ^ 52, 6329652137158163 / 2 ^ 52, 1]))) = 3359133019781437 / 2 ^ 50"
    by (simp only: fold_rules tie_rounding)
  have "cosine_similarity_rounded binary64 [0, 0, 0, 0, 0, 0, 0, 0, 1] [0, 0, 0, 0, 6329652137158163 / 2 ^ 52, 6329652137158163 / 2 ^ 52, 6329652137158163 / 2 ^ 52, 6329652137158163 / 2 ^ 52, 1]
        = binary64 (1 / binary64 (1 * (3359133019781437 / 2 ^ 50)))"
    by (rule cosine_rounded_unfold [OF _ _ d n1 n2]) simp_all
  also have "\<dots> = 6037989411021107 / 2 ^ 54"
    by (simp only: fold_rules tie_rounding)
  finally show ?thesis
    by (simp only: v)
qed

lemma tie_score1_1:
  "final_score_rounded binary64 (tokenize (Some ''x'')) [0, 0, 0, 0, 0, 0, 0, 0, 1] (tie_books ! 1) (tie_vectors1 ! 1)
   = 6037989411021107 / 2 ^ 52"
proof -
  have "final_score_rounded binary64 (tokenize (Some ''x'')) [0, 0, 0, 0, 0, 0, 0, 0, 1] (tie_books ! 1)
          (tie_vectors1 ! 1)
        = binary64 (binary64 (binary64 (6037989411021107 / 2 ^ 54 * 4) + 0) + 0)"
    by (rule final_score_rounded_no_match [OF tie_cosine1_1])
       (simp_all add: tie_books_def tie_tokens)
  also have "\<dots> = 6037989411021107 / 2 ^ 52"
    by (simp only: fold_rules tie_rounding)
  finally show ?thesis .
qed

lemma tie_cosine2_0:
  "cosine_similarity_rounded binary64 [0, 0, 0, 0, 0, 0, 0, 1, 0] (tie_vectors2 ! 0) = 6037989411021107 / 2 ^ 54"
proof -
  have v: "tie_vectors2 ! 0 = [6329652137158163 / 2 ^ 52, 6329652137158163 / 2 ^ 52, 6329652137158163 / 2 ^ 52, 6329652137158163 / 2 ^ 52, 0, 0, 0, 1, 0]"
    by (simp add: tie_vectors2_def tie_weight_def)
  have d: "sum_rounded binary64 (map (\<lambda>(a, b). binary64 (a * b)) (zip [0, 0, 0, 0, 0, 0, 0, 1, 0] [6329652137158163 / 2 ^ 52, 6329652137158163 / 2 ^ 52, 6329652137158163 / 2 ^ 52, 6329652137158163 / 2 ^ 52, 0, 0, 0, 1, 0])) = 1"
    by (simp only: fold_rules tie_rounding)
  have n1: "binary64 (sqrt (sum_rounded binary64 (map (\<lambda>a. binary64 (a * a)) [0, 0, 0, 0, 0, 0, 0, 1, 0]))) = 1"
    by (simp only: fold_rules tie_rounding)
  have n2: "binary64 (sqrt (sum_rounded binary64 (map (\<lambda>a. binary64 (a * a)) [6329652137158163 / 2 ^ 52, 6329652137158163 / 2 ^ 52, 6329652137158163 / 2 ^ 52, 6329652137158163 / 2 ^ 52, 0, 0, 0, 1, 0]))) = 3359133019781437 / 2 ^ 50"
    by (simp only: fold_rules tie_rounding)
  have "cosine_similarity_rounded binary64 [0, 0, 0, 0, 0, 0, 0, 1, 0] [6329652137158163 / 2 ^ 52, 6329652137158163 / 2 ^ 52, 6329652137158163 / 2 ^ 52, 6329652137158163 / 2 ^ 52, 0, 0, 0, 1, 0]
        = binary64 (1 / binary64 (1 * (3359133019781437 / 2 ^ 50)))"
    by (rule cosine_rounded_unfold [OF _ _ d n1 n2]) simp_all
  also have "\<dots> = 6037989411021107 / 2 ^ 54"
    by (simp only: fold_rules tie_rounding)
  finally show ?thesis
    by (simp only: v)
qed

lemma tie_score2_0:
  "final_score_rounded binary64 (tokenize (Some ''x'')) [0, 0, 0, 0, 0, 0, 0, 1, 0] (tie_books ! 0) (tie_vectors2 ! 0)
   = 6037989411021107 / 2 ^ 52"
proof -
  have "final_score_rounded binary64 (tokenize (Some ''x'')) [0, 0, 0, 0, 0, 0, 0, 1, 0] (tie_books ! 0)
          (tie_vectors2 ! 0)
        = binary64 (binary64 (binary64 (6037989411021107 / 2 ^ 54 * 4) + 0) + 0)"
    by (rule final_score_rounded_no_match [OF tie_cosine2_0])
       (simp_all add: tie_books_def tie_tokens)
  also have "\<dots> = 6037989411021107 / 2 ^ 52"
    by (simp only: fold_rules tie_rounding)
  finally show ?thesis .
qed

lemma tie_cosine2_1:
  "cosine_similarity_rounded binary64 [0, 0, 0, 0, 0, 0, 0, 1, 0] (tie_vectors2 ! 1) = 1509497352755277 / 2 ^ 52"
proof -
  have v: "tie_vectors2 ! 1 = [0, 0, 0, 0, 6329652137158163 / 2 ^ 52, 6329652137158163 / 2 ^ 52, 6329652137158163 / 2 ^ 52, 1, 6329652137158163 / 2 ^ 52]"
    by (simp add: tie_vectors2_def tie_weight_def)
  have d: "sum_rounded binary64 (map (\<lambda>(a, b). binary64 (a * b)) (zip [0, 0, 0, 0, 0, 0, 0, 1, 0] [0, 0, 0, 0, 6329652137158163 / 2 ^ 52, 6329652137158163 / 2 ^ 52, 6329652137158163 / 2 ^ 52, 1, 6329652137158163 / 2 ^ 52])) = 1"
    by (simp only: fold_rules tie_rounding)
  have n1: "binary64 (sqrt (sum_rounded binary64 (map (\<lambda>a. binary64 (a * a)) [0, 0, 0, 0, 0, 0, 0, 1, 0]))) = 1"
    by (simp only: fold_rules tie_rounding)
  have n2: "binary64 (sqrt (sum_rounded binary64 (map (\<lambda>a. binary64 (a * a)) [0, 0, 0, 0, 6329652137158163 / 2 ^ 52, 6329652137158163 / 2 ^ 52, 6329652137158163 / 2 ^ 52, 1, 6329652137158163 / 2 ^ 52]))) = 6718266039562873 / 2 ^ 51"
    by (simp only: fold_rules tie_rounding)
  have "cosine_similarity_rounded binary64 [0, 0, 0, 0, 0, 0, 0, 1, 0] [0, 0, 0, 0, 6329652137158163 / 2 ^ 52, 6329652137158163 / 2 ^ 52, 6329652137158163 / 2 ^ 52, 1, 6329652137158163 / 2 ^ 52]
        = binary64 (1 / binary64 (1 * (6718266039562873 / 2 ^ 51)))"
    by (rule cosine_rounded_unfold [OF _ _ d n1 n2]) simp_all
  also have "\<dots> = 1509497352755277 / 2 ^ 52"
    by (simp only: fold_rules tie_rounding)
  finally show ?thesis
    by (simp only: v)
qed

lemma tie_score2_1:
  "final_score_rounded binary64 (tokenize (Some ''x'')) [0, 0, 0, 0, 0, 0, 0, 1, 0] (tie_books ! 1) (tie_vectors2 ! 1)
   = 1509497352755277 / 2 ^ 50"
proof -
  have "final_score_rounded binary64 (tokenize (Some ''x'')) [0, 0, 0, 0, 0, 0, 0, 1, 0] (tie_books ! 1)
          (tie_vectors2 ! 1)
        = binary64 (binary64 (binary64 (1509497352755277 / 2 ^ 52 * 4) + 0) + 0)"
    by (rule final_score_rounded_no_match [OF tie_cosine2_1])
       (simp_all add: tie_books_def tie_tokens)
  also have "\<dots> = 1509497352755277 / 2 ^ 50"
    by (simp only: fold_rules tie_rounding)
  finally show ?thesis .
qed

lemma search_two_books:
  assumes "length books = 2" and "length doc_vectors = 2"
    and "vectorize_rounded rnd vocab_index idf (tokenize (Some query)) (length vocab_index)
         = Inr qv"
    and "final_score_rounded rnd (tokenize (Some query)) qv (books ! 0) (doc_vectors ! 0) = s0"
    and "final_score_rounded rnd (tokenize (Some query)) qv (books ! 1) (doc_vectors ! 1) = s1"
  shows "search_with_ir_rounded rnd query books doc_vectors vocab_index idf
         = Inr (map (\<lambda>i. books ! i)
                  (filter (\<lambda>i. 0 < (if i = 0 then s0 else s1))
                     (if s0 < s1 then [1, 0] else [0, 1])))"
proof -
  define f where
    "f = (\<lambda>i. final_score_rounded rnd (tokenize (Some query)) qv (books ! i) (doc_vectors ! i))"
  have f: "f 0 = s0" "f 1 = s1" "f (Suc 0) = s1"
    using assms(4,5) by (simp_all add: f_def)
  have "search_with_ir_rounded rnd query books doc_vectors vocab_index idf
        = Inr (map (\<lambda>i. books ! i)
                 (filter (\<lambda>i. 0 < f i) (map fst (rank f [0..<length books]))))"
    unfolding f_def by (rule search_with_ir_rounded_ranked) (simp_all add: assms)
  also have "map fst (rank f [0..<length books]) = (if s0 < s1 then [1, 0] else [0, 1])"
    by (simp add: assms(1) rank_two f)
  also have "filter (\<lambda>i. 0 < f i) (if s0 < s1 then [1, 0] else [0, 1])
             = filter (\<lambda>i. 0 < (if i = 0 then s0 else s1)) (if s0 < s1 then [1, 0] else [0, 1])"
    by (rule filter_cong) (auto simp: f split: if_splits)
  finally show ?thesis .
qed

lemma tie_search1:
  "search_with_ir_rounded binary64 ''x'' tie_books tie_vectors1 tie_vocab_index1 tie_idf1
   = Inr [tie_books ! 0, tie_books ! 1]"
proof -
  have books: "length tie_books = 2"
    by (simp add: tie_books_def)
  have vectors: "length tie_vectors1 = 2"
    by (simp add: tie_vectors1_def)
  have query: "vectorize_rounded binary64 tie_vocab_index1 tie_idf1 (tokenize (Some ''x''))
                 (length tie_vocab_index1) = Inr [0, 0, 0, 0, 0, 0, 0, 0, 1]"
    by (simp only: tie_tokens tie_query1)
  show ?thesis
    using search_two_books [OF books vectors query tie_score1_0 tie_score1_1]
    by simp
qed

lemma tie_search2:
  "search_with_ir_rounded binary64 ''x'' tie_books tie_vectors2 tie_vocab_index2 tie_idf2
   = Inr [tie_books ! 1, tie_books ! 0]"
proof -
  have books: "length tie_books = 2"
    by (simp add: tie_books_def)
  have vectors: "length tie_vectors2 = 2"
    by (simp add: tie_vectors2_def)
  have query: "vectorize_rounded binary64 tie_vocab_index2 tie_idf2 (tokenize (Some ''x''))
                 (length tie_vocab_index2) = Inr [0, 0, 0, 0, 0, 0, 0, 1, 0]"
    by (simp only: tie_tokens tie_query2)
  show ?thesis
    using search_two_books [OF books vectors query tie_score2_0 tie_score2_1]
    by simp
qed

section \<open>Properties of the tokenizer\<close>

text \<open>
  Claim C9. \<open>tokenize\<close> lowercases its input, replaces commas and periods by spaces
  and splits at white space; \<open>tokenize("Hello, World.")\<close> is \<open>["hello", "world"]\<close>,
  and the empty and the absent text give the empty list.
\<close>

theorem tokenize_spec:
  "tokenize (Some text) =
     split (replace (CHR ''.'') (CHR '' '') (replace (CHR '','') (CHR '' '') (lower text)))
   \<and> tokenize (Some ''Hello, World.'') = [''hello'', ''world'']
   \<and> tokenize (Some '''') = []
   \<and> tokenize None = []"
proof -
  have general: "tokenize (Some text) =
     split (replace (CHR ''.'') (CHR '' '') (replace (CHR '','') (CHR '' '') (lower text)))"
    by (simp add: tokenize_def split_def replace_def lower_def)
  have example: "tokenize (Some ''Hello, World.'') = [''hello'', ''world'']"
    by code_simp
  have empty: "tokenize (Some '''') = []" "tokenize None = []"
    by (simp_all add: tokenize_def)
  from general example empty show ?thesis by blast
qed

theorem tokenize_spec_witness:
  "tokenize (Some ''A.b,C d'') = [''a'', ''b'', ''c'', ''d'']"
proof -
  have "split (replace (CHR ''.'') (CHR '' '') (replace (CHR '','') (CHR '' '') (lower ''A.b,C d'')))
        = [''a'', ''b'', ''c'', ''d'']"
    by code_simp
  with tokenize_spec [of "''A.b,C d''"] show ?thesis by simp
qed

section \<open>Properties of the index\<close>

text \<open>
  Claim C6. For every corpus and every order \<open>vocab\<close> in which the vocabulary may be
  listed, \<open>build_tfidf\<close> returns an index, and its table gives every term \<open>t\<close> of the
  vocabulary the weight \<open>ln ((N + 1) / (df t + 1)) + 1\<close>, where \<open>N\<close> is the number of
  documents and \<open>df t\<close> the number of documents that contain \<open>t\<close>; that weight is
  strictly positive.
\<close>

theorem idf_weights_positive:
  assumes "is_listing vocab (vocab_set documents)"
  shows "\<exists>vectors vocab_index idf.
           build_tfidf vocab documents = Inr (vectors, vocab_index, idf)
         \<and> (\<forall>t \<in> vocab_set documents.
               map_of idf t =
                 Some (ln ((real (length documents) + 1)
                           / (real (card {i. i < length documents
                                            \<and> t \<in> set (tokenize (Some (documents ! i)))}) + 1))
                       + 1)
             \<and> 0 < ln ((real (length documents) + 1)
                        / (real (card {i. i < length documents
                                         \<and> t \<in> set (tokenize (Some (documents ! i)))}) + 1))
                    + 1)"
proof -
  from build_tfidf_total [of vocab documents] obtain vectors vocab_index idf
    where built: "build_tfidf vocab documents = Inr (vectors, vocab_index, idf)"
    by blast
  have weights: "map_of idf t =
                 Some (ln ((real (length documents) + 1)
                           / (real (card {i. i < length documents
                                            \<and> t \<in> set (tokenize (Some (documents ! i)))}) + 1))
                       + 1)
             \<and> 0 < ln ((real (length documents) + 1)
                        / (real (card {i. i < length documents
                                         \<and> t \<in> set (tokenize (Some (documents ! i)))}) + 1))
                    + 1"
    if t: "t \<in> vocab_set documents" for t
  proof -
    define d where "d = card {i. i < length documents \<and> t \<in> set (tokenize (Some (documents ! i)))}"
    have df_card: "df documents t = d"
      by (simp add: df_def d_def length_filter_conv_card)
    from t assms have "t \<in> set vocab"
      by (simp add: is_listing_def)
    then have "map_of idf t = Some (idf_weight (length documents) (df documents t))"
      by (simp only: build_tfidf_parts(2) [OF built] map_of_foldl_idf if_True)
    then have stored: "map_of idf t = Some (ln ((real (length documents) + 1) / (real d + 1)) + 1)"
      by (simp add: idf_weight_def df_card)
    have "df documents t \<le> length documents"
      by (simp add: df_def)
    then have "d \<le> length documents"
      by (simp add: df_card)
    then have "1 * (real d + 1) \<le> real (length documents) + 1"
      by simp
    then have "1 \<le> (real (length documents) + 1) / (real d + 1)"
      by (subst pos_le_divide_eq) simp_all
    then have "0 \<le> ln ((real (length documents) + 1) / (real d + 1))"
      by (rule ln_ge_zero)
    then have "0 < ln ((real (length documents) + 1) / (real d + 1)) + 1"
      by linarith
    with stored show ?thesis
      by (simp add: d_def)
  qed
  from built weights show ?thesis
    by blast
qed

theorem idf_weights_positive_witness:
  "is_listing two_books_vocab (vocab_set (map document_text two_books))
   \<and> (\<exists>vectors vocab_index idf.
         build_tfidf two_books_vocab (map document_text two_books)
           = Inr (vectors, vocab_index, idf)
       \<and> map_of idf ''a'' = Some (ln (3 / 2) + 1)
       \<and> map_of idf ''x'' = Some 1)"
proof -
  let ?docs = "map document_text two_books"
  have a: "''a'' \<in> vocab_set ?docs" and x: "''x'' \<in> vocab_set ?docs"
    by (simp_all add: vocab_set_def two_books_texts two_books_tokens)
  have card_a: "card {i. i < length ?docs \<and> ''a'' \<in> set (tokenize (Some (?docs ! i)))} = 1"
  proof -
    have "{i. i < length ?docs \<and> ''a'' \<in> set (tokenize (Some (?docs ! i)))} = {0}"
      by (auto simp: two_books_texts two_books_tokens less_Suc_eq numeral_2_eq_2)
    then show ?thesis by simp
  qed
  have card_x: "card {i. i < length ?docs \<and> ''x'' \<in> set (tokenize (Some (?docs ! i)))} = 2"
  proof -
    have "{i. i < length ?docs \<and> ''x'' \<in> set (tokenize (Some (?docs ! i)))} = {0, 1}"
      by (auto simp: two_books_texts two_books_tokens less_Suc_eq numeral_2_eq_2)
    then show ?thesis by simp
  qed
  from idf_weights_positive [OF two_books_listing] obtain vectors vocab_index idf
    where built: "build_tfidf two_books_vocab ?docs = Inr (vectors, vocab_index, idf)"
      and all: "\<forall>t \<in> vocab_set ?docs.
               map_of idf t =
                 Some (ln ((real (length ?docs) + 1)
                           / (real (card {i. i < length ?docs
                                            \<and> t \<in> set (tokenize (Some (?docs ! i)))}) + 1))
                       + 1)
             \<and> 0 < ln ((real (length ?docs) + 1)
                        / (real (card {i. i < length ?docs
                                         \<and> t \<in> set (tokenize (Some (?docs ! i)))}) + 1))
                    + 1"
    by blast
  from all a card_a have "map_of idf ''a'' = Some (ln (3 / 2) + 1)"
    by (simp add: two_books_def)
  moreover from all x card_x have "map_of idf ''x'' = Some 1"
    by (simp add: two_books_def)
  ultimately show ?thesis
    using two_books_listing built by blast
qed

section \<open>Properties of search\<close>

text \<open>
  Claim C2. For every query, every corpus and the index built from it,
  \<open>search_with_ir\<close> returns documents of the corpus only, each position at most once,
  and the positions returned are exactly those whose score is strictly positive, where
  the score is 4 times the cosine similarity of the query vector and the document
  vector, plus 3 for every query token (with multiplicity) that occurs in the tokenized
  title, plus 2 for every query token that occurs in the tokenized author.
\<close>

theorem search_positive_scores:
  assumes "is_listing vocab (vocab_set (map document_text books))"
    and "build_index vocab books = Inr (doc_vectors, vocab_index, idf)"
  shows "\<exists>query_vector idxs.
           vectorize vocab_index idf (tokenize (Some query)) (length vocab_index) = Inr query_vector
         \<and> search_with_ir query books doc_vectors vocab_index idf = Inr (map (\<lambda>i. books ! i) idxs)
         \<and> distinct idxs
         \<and> set idxs =
             {i. i < length books
               \<and> 0 < cosine_similarity query_vector (doc_vectors ! i) * 4
                     + 3 * real (length (filter
                          (\<lambda>token. token \<in> set (tokenize (Some (title (books ! i)))))
                          (tokenize (Some query))))
                     + 2 * real (length (filter
                          (\<lambda>token. token \<in> set (tokenize (Some (author (books ! i)))))
                          (tokenize (Some query))))}"
proof -
  from built_index_shape(2) [OF assms] obtain qv
    where qv: "vectorize vocab_index idf (tokenize (Some query)) (length vocab_index) = Inr qv"
    by blast
  define f where "f = (\<lambda>i. final_score (tokenize (Some query)) qv (books ! i) (doc_vectors ! i))"
  define idxs where "idxs = filter (\<lambda>i. 0 < f i) (map fst (rank f [0..<length books]))"
  have result: "search_with_ir query books doc_vectors vocab_index idf
                = Inr (map (\<lambda>i. books ! i) idxs)"
    unfolding idxs_def f_def
    by (rule search_with_ir_ranked [OF built_index_shape(1) [OF assms] qv])
  have dist: "distinct idxs"
    unfolding idxs_def by (rule distinct_filter) (rule distinct_rank, simp)
  have "set idxs = {i. i < length books \<and> 0 < f i}"
    unfolding idxs_def using set_rank [of f "[0..<length books]"] by auto
  then have members: "set idxs =
             {i. i < length books
               \<and> 0 < cosine_similarity qv (doc_vectors ! i) * 4
                     + 3 * real (length (filter
                          (\<lambda>token. token \<in> set (tokenize (Some (title (books ! i)))))
                          (tokenize (Some query))))
                     + 2 * real (length (filter
                          (\<lambda>token. token \<in> set (tokenize (Some (author (books ! i)))))
                          (tokenize (Some query))))}"
    by (simp only: f_def final_score_formula)
  from qv result dist members show ?thesis
    by blast
qed

theorem search_positive_scores_witness:
  "is_listing two_books_vocab (vocab_set (map document_text two_books))
   \<and> build_index two_books_vocab two_books
       = Inr (two_books_vectors, two_books_vocab_index, two_books_idf)
   \<and> (\<exists>query_vector idxs.
         vectorize two_books_vocab_index two_books_idf (tokenize (Some ''a''))
           (length two_books_vocab_index) = Inr query_vector
       \<and> search_with_ir ''a'' two_books two_books_vectors two_books_vocab_index two_books_idf
           = Inr (map (\<lambda>i. two_books ! i) idxs)
       \<and> distinct idxs
       \<and> set idxs =
           {i. i < length two_books
             \<and> 0 < cosine_similarity query_vector (two_books_vectors ! i) * 4
                   + 3 * real (length (filter
                        (\<lambda>token. token \<in> set (tokenize (Some (title (two_books ! i)))))
                        (tokenize (Some ''a''))))
                   + 2 * real (length (filter
                        (\<lambda>token. token \<in> set (tokenize (Some (author (two_books ! i)))))
                        (tokenize (Some ''a''))))})"
  by (intro conjI two_books_listing two_books_index
      search_positive_scores [OF two_books_listing two_books_index])



section \<open>Properties of recommendation\<close>

text \<open>
  Claim C5. For a corpus and its vectors, a source position below 0 or not below the
  size of the corpus makes \<open>recommend_similar\<close> return the empty list; it does not
  raise.
\<close>

theorem recommend_out_of_range:
  assumes "length doc_vectors = length books"
    and "book_idx < 0 \<or> int (length books) \<le> book_idx"
  shows "recommend_similar book_idx books doc_vectors top_n = Inr []"
  using assms by (simp add: recommend_similar_def)

theorem recommend_out_of_range_witness:
  "recommend_similar 1 [mk_book ''a'' ''b''] [[1]] 4 = Inr []
   \<and> recommend_similar (- 1) [mk_book ''a'' ''b''] [[1]] 4 = Inr []"
  using recommend_out_of_range [of "[[1]]" "[mk_book ''a'' ''b'']" 1 4]
    recommend_out_of_range [of "[[1]]" "[mk_book ''a'' ''b'']" "- 1" 4]
  by simp



section \<open>Properties of cosine similarity\<close>




text \<open>
  Claim C7, as amended. \<open>cosine_similarity\<close> is symmetric, in exact arithmetic and
  with any rounding of the operations; and in exact arithmetic the similarity of a
  vector that is not zero with itself is 1.
\<close>

theorem cosine_similarity_symmetric:
  "cosine_similarity a b = cosine_similarity b a
   \<and> cosine_similarity_rounded rnd a b = cosine_similarity_rounded rnd b a
   \<and> ((\<exists>x \<in> set v. x \<noteq> 0) \<longrightarrow> cosine_similarity v v = 1)"
  using cosine_similarity_commute [of a b] cosine_similarity_rounded_commute [of rnd a b]
    cosine_similarity_self [of v]
  by blast

theorem cosine_similarity_symmetric_witness:
  "cosine_similarity [3, 4] [4, 3] = cosine_similarity [4, 3] [3, 4]
   \<and> cosine_similarity_rounded binary64 [3, 4] [4, 3]
       = cosine_similarity_rounded binary64 [4, 3] [3, 4]
   \<and> cosine_similarity [3, 4] [3, 4] = 1"
  using cosine_similarity_symmetric [of "[3, 4]" "[4, 3]" binary64 "[3, 4]"]
  by simp

text \<open>
  The claim as the specification states it is false for the floats of the program:
  for \<open>v = [1.0, 1.0]\<close>, the vector of a document of two different words in a corpus
  where every word is in every document, the norm is the rounded square root of 2,
  the product of the two norms rounds to \<open>2 + 2 / 2 ^ 52\<close>, and the quotient is
  \<open>0.9999999999999998\<close>.
\<close>

theorem cosine_self_counterexample:
  "cosine_similarity_rounded binary64 [1, 1] [1, 1] = 1 - 1 / 2 ^ 52
   \<and> cosine_similarity_rounded binary64 [1, 1] [1, 1] \<noteq> 1"
proof -
  have d: "sum_rounded binary64 (map (\<lambda>(a, b). binary64 (a * b)) (zip [1, 1] [1, 1])) = 2"
    by (simp add: sum_rounded_def binary64_1 binary64_2)
  have n: "binary64 (sqrt (sum_rounded binary64 (map (\<lambda>a. binary64 (a * a)) [1, 1])))
           = 6369051672525773 / 2 ^ 52"
    by (simp add: sum_rounded_def binary64_1 binary64_2 binary64_sqrt2)
  have "cosine_similarity_rounded binary64 [1, 1] [1, 1]
        = binary64 (2 / binary64 (6369051672525773 / 2 ^ 52 * (6369051672525773 / 2 ^ 52)))"
    by (rule cosine_rounded_unfold [OF _ _ d n n]) simp_all
  also have "\<dots> = 9007199254740990 / 2 ^ 53"
    by (simp only: binary64_norms2 binary64_quotient2)
  also have "\<dots> = 1 - 1 / 2 ^ 52"
    by simp
  finally have "cosine_similarity_rounded binary64 [1, 1] [1, 1] = 1 - 1 / 2 ^ 52" .
  then show ?thesis
    by simp
qed




section \<open>The order of the vocabulary\<close>

text \<open>
  In exact arithmetic the results of \<open>search_with_ir\<close> and \<open>recommend_similar\<close> are
  the same for any two orders in which line 26 of \<^verbatim>\<open>build_tfidf\<close> may list the
  vocabulary: a dot product and a norm are sums over the vocabulary, whatever the
  order of its slots. The floats of the program add in the order of the slots, and a
  rounded sum depends on that order, so this is a statement about the weights as real
  numbers only.
\<close>

lemma vocabulary_order_exact:
  assumes listing: "is_listing vocab (vocab_set (map document_text books))"
    and listing': "is_listing vocab' (vocab_set (map document_text books))"
    and index: "build_index vocab books = Inr (doc_vectors, vocab_index, idf)"
    and index': "build_index vocab' books = Inr (doc_vectors', vocab_index', idf')"
  shows "search_with_ir query books doc_vectors vocab_index idf
           = search_with_ir query books doc_vectors' vocab_index' idf'
       \<and> recommend_similar book_idx books doc_vectors top_n
           = recommend_similar book_idx books doc_vectors' top_n"
proof -
  define documents where "documents = map document_text books"
  define qt where "qt = tokenize (Some query)"
  from listing listing' have vocab: "distinct vocab" "distinct vocab'" "set vocab = set vocab'"
    by (simp_all add: is_listing_def)
  from index index' have built:
    "build_tfidf vocab documents = Inr (doc_vectors, vocab_index, idf)"
    "build_tfidf vocab' documents = Inr (doc_vectors', vocab_index', idf')"
    by (simp_all add: build_index_def documents_def)
  have len: "length doc_vectors = length books" "length doc_vectors' = length books"
    using build_tfidf_parts(3) [OF built(1)] build_tfidf_parts(3) [OF built(2)]
    by (simp_all add: documents_def)
  have dv: "doc_vectors ! i = map (weight documents (tokenize (Some (documents ! i)))) vocab"
    "doc_vectors' ! i = map (weight documents (tokenize (Some (documents ! i)))) vocab'"
    if "i < length books" for i
    using that built_vectors(1) [OF vocab(1) built(1)] built_vectors(1) [OF vocab(2) built(2)]
    by (simp_all add: documents_def)
  have qv: "vectorize vocab_index idf qt (length vocab_index)
            = Inr (map (weight documents qt) vocab)"
    "vectorize vocab_index' idf' qt (length vocab_index')
            = Inr (map (weight documents qt) vocab')"
    by (rule built_vectors(2) [OF vocab(1) built(1)], rule built_vectors(2) [OF vocab(2) built(2)])
  have cos: "cosine_similarity (map f vocab) (map g vocab)
             = cosine_similarity (map f vocab') (map g vocab')" for f g
    by (rule cosine_similarity_listing [OF vocab])
  define f where
    "f = (\<lambda>i. final_score qt (map (weight documents qt) vocab) (books ! i) (doc_vectors ! i))"
  define f' where
    "f' = (\<lambda>i. final_score qt (map (weight documents qt) vocab') (books ! i) (doc_vectors' ! i))"
  have ff': "f i = f' i" if "i < length books" for i
    using that by (simp add: f_def f'_def final_score_def dv cos)
  have "search_with_ir query books doc_vectors vocab_index idf
        = Inr (map (\<lambda>i. books ! i) (filter (\<lambda>i. 0 < f i) (map fst (rank f [0..<length books]))))"
    unfolding f_def qt_def
    by (rule search_with_ir_ranked [OF len(1) qv(1) [unfolded qt_def]])
  moreover have "search_with_ir query books doc_vectors' vocab_index' idf'
        = Inr (map (\<lambda>i. books ! i) (filter (\<lambda>i. 0 < f' i) (map fst (rank f' [0..<length books]))))"
    unfolding f'_def qt_def
    by (rule search_with_ir_ranked [OF len(2) qv(2) [unfolded qt_def]])
  moreover have "rank f [0..<length books] = rank f' [0..<length books]"
    by (rule rank_cong) (simp add: ff')
  moreover have "filter (\<lambda>i. 0 < f i) (map fst (rank f' [0..<length books]))
                 = filter (\<lambda>i. 0 < f' i) (map fst (rank f' [0..<length books]))"
  proof (rule filter_cong [OF refl])
    fix i
    assume "i \<in> set (map fst (rank f' [0..<length books]))"
    then have "i < length books"
      using set_rank [of f' "[0..<length books]"] by auto
    then show "(0 < f i) = (0 < f' i)"
      by (simp add: ff')
  qed
  ultimately have search: "search_with_ir query books doc_vectors vocab_index idf
           = search_with_ir query books doc_vectors' vocab_index' idf'"
    by simp
  have recommend: "recommend_similar book_idx books doc_vectors top_n
           = recommend_similar book_idx books doc_vectors' top_n"
  proof (cases "0 \<le> book_idx \<and> book_idx < int (length books)")
    case False
    then show ?thesis
      using len by (auto simp add: recommend_similar_def)
  next
    case True
    then have range: "0 \<le> book_idx" "book_idx < int (length books)"
      by simp_all
    then have bi: "nat book_idx < length books"
      by simp
    define js where "js = filter (\<lambda>i. i \<noteq> nat book_idx) [0..<length books]"
    define s where "s = (\<lambda>i. cosine_similarity (doc_vectors ! nat book_idx) (doc_vectors ! i))"
    define s' where "s' = (\<lambda>i. cosine_similarity (doc_vectors' ! nat book_idx) (doc_vectors' ! i))"
    have "s i = s' i" if "i \<in> set js" for i
    proof -
      from that have "i < length books"
        by (simp add: js_def)
      with bi show ?thesis
        by (simp add: s_def s'_def dv cos)
    qed
    then have "rank s js = rank s' js"
      by (rule rank_cong)
    moreover have "recommend_similar book_idx books doc_vectors top_n
          = Inr (map (\<lambda>i. books ! i) (map fst (slice_to (rank s js) top_n)))"
      unfolding s_def js_def by (rule recommend_similar_ranked [OF len(1) range])
    moreover have "recommend_similar book_idx books doc_vectors' top_n
          = Inr (map (\<lambda>i. books ! i) (map fst (slice_to (rank s' js) top_n)))"
      unfolding s'_def js_def by (rule recommend_similar_ranked [OF len(2) range])
    ultimately show ?thesis
      by simp
  qed
  from search recommend show ?thesis
    by simp
qed

end
